theory Spec2Isabelle
  imports Complex_Main
begin

section \<open>Boards\<close>

text \<open>
  A board is the source's \<^verbatim>\<open>string[][]\<close>: nine rows of nine one-character cells,
  \<^verbatim>\<open>"."\<close> for an empty cell and \<^verbatim>\<open>"1"\<close> .. \<^verbatim>\<open>"9"\<close> for a digit. The routines below
  read and write cells by index inside fixed loops over 0..8 and never resize a board, so
  every statement about them is made for boards of nine rows of nine cells
  (\<open>wf_board\<close>), the documented precondition of the engine.
\<close>

type_synonym SudokuBoard = "string list list"

definition wf_board :: "SudokuBoard \<Rightarrow> bool" where
  "wf_board board \<longleftrightarrow> length board = 9 \<and> list_all (\<lambda>r. length r = 9) board"

text \<open>The mask of given cells, \<^verbatim>\<open>boolean[][]\<close>, has the shape of a board.\<close>

definition wf_mask :: "bool list list \<Rightarrow> bool" where
  "wf_mask m \<longleftrightarrow> length m = 9 \<and> list_all (\<lambda>r. length r = 9) m"

text \<open>\<^verbatim>\<open>m[i][j] = v\<close> on a nested array, inside the array's bounds.\<close>

definition set2 :: "'a list list \<Rightarrow> nat \<Rightarrow> nat \<Rightarrow> 'a \<Rightarrow> 'a list list" where
  "set2 m i j v = m[i := (m ! i)[j := v]]"

text \<open>\<^verbatim>\<open>Math.floor(row / 3) * 3 + Math.floor(col / 3)\<close>\<close>

definition blockIndexOf :: "nat \<Rightarrow> nat \<Rightarrow> nat" where
  "blockIndexOf row col = (row div 3) * 3 + col div 3"

section \<open>Number and string conversions used by the solver\<close>

text \<open>\<^verbatim>\<open>num.toString()\<close> for a non-negative integer: its decimal digits.\<close>

definition digitChar :: "nat \<Rightarrow> char" where
  "digitChar d = ''0123456789'' ! d"

fun toString :: "nat \<Rightarrow> string" where
  "toString n = (if n < 10 then [digitChar n] else toString (n div 10) @ [digitChar (n mod 10)])"

declare toString.simps [simp del]

text \<open>
  \<^verbatim>\<open>parseInt(s)\<close> without a radix: leading white space is skipped, one sign is read,
  a \<^verbatim>\<open>0x\<close> or \<^verbatim>\<open>0X\<close> prefix selects base 16, and the longest run of digits of the base
  is the value; with no digit the result is \<^verbatim>\<open>NaN\<close>, here \<open>None\<close>. Characters are the
  code units below 256.
\<close>

definition isWhiteSpace :: "char \<Rightarrow> bool" where
  "isWhiteSpace c \<longleftrightarrow> of_char c \<in> {9, 10, 11, 12, 13, 32, 160 :: nat}"

definition digitValue :: "nat \<Rightarrow> char \<Rightarrow> nat option" where
  "digitValue radix c =
     (let k = (of_char c :: nat);
          v = (if 48 \<le> k \<and> k \<le> 57 then Some (k - 48)
               else if 97 \<le> k \<and> k \<le> 102 then Some (k - 87)
               else if 65 \<le> k \<and> k \<le> 70 then Some (k - 55)
               else None)
      in case v of None \<Rightarrow> None | Some d \<Rightarrow> if d < radix then Some d else None)"

fun parseDigits :: "nat \<Rightarrow> string \<Rightarrow> nat option \<Rightarrow> nat option" where
  "parseDigits radix [] acc = acc"
| "parseDigits radix (c # cs) acc =
     (case digitValue radix c of
        None \<Rightarrow> acc
      | Some d \<Rightarrow> parseDigits radix cs (Some ((case acc of None \<Rightarrow> 0 | Some a \<Rightarrow> a) * radix + d)))"

definition parseInt :: "string \<Rightarrow> int option" where
  "parseInt s =
     (let t = dropWhile isWhiteSpace s;
          neg = (case t of [] \<Rightarrow> False | c # _ \<Rightarrow> c = CHR ''-'');
          u = (case t of [] \<Rightarrow> [] | c # r \<Rightarrow> if c = CHR ''-'' \<or> c = CHR ''+'' then r else t);
          hex = (take 2 u = ''0x'' \<or> take 2 u = ''0X'');
          m = (if hex then parseDigits 16 (drop 2 u) None else parseDigits 10 u None)
      in case m of None \<Rightarrow> None | Some n \<Rightarrow> Some (if neg then - int n else int n))"

section \<open>The backtracking solver\<close>

text \<open>
  The class \<^verbatim>\<open>SudokuSolver\<close> holds three tables of booleans, nine rows of ten entries
  each, indexed by unit and digit; entry 0 of a row is never read.
\<close>

record SudokuSolver =
  rows :: "bool list list"
  cols :: "bool list list"
  blocks :: "bool list list"

definition newSolver :: SudokuSolver where
  "newSolver = \<lparr>rows = replicate 9 (replicate 10 False),
                cols = replicate 9 (replicate 10 False),
                blocks = replicate 9 (replicate 10 False)\<rparr>"

definition wf_table :: "bool list list \<Rightarrow> bool" where
  "wf_table t \<longleftrightarrow> length t = 9 \<and> list_all (\<lambda>r. length r = 10) t"

definition wf_solver :: "SudokuSolver \<Rightarrow> bool" where
  "wf_solver s \<longleftrightarrow> wf_table (rows s) \<and> wf_table (cols s) \<and> wf_table (blocks s)"

text \<open>
  \<^verbatim>\<open>table[i][num] = true\<close> where \<^verbatim>\<open>num\<close> comes from \<^verbatim>\<open>parseInt\<close>. For a value outside
  0..9 (or \<^verbatim>\<open>NaN\<close>) JavaScript stores under a key that no later read uses, since the
  search reads the entries 1..9 only: the ten entries of the row stay as they are.
\<close>

definition markParsed :: "bool list list \<Rightarrow> nat \<Rightarrow> int option \<Rightarrow> bool list list" where
  "markParsed t i num =
     (case num of
        None \<Rightarrow> t
      | Some k \<Rightarrow> if 0 \<le> k \<and> k < 10 then set2 t i (nat k) True else t)"

text \<open>
  \<^verbatim>\<open>initializeTracking\<close>: the first pair of loops sets every entry to false, the second
  marks the digit of every cell that is not \<^verbatim>\<open>"."\<close>.
\<close>

definition clearEntry :: "nat \<Rightarrow> nat \<Rightarrow> SudokuSolver \<Rightarrow> SudokuSolver" where
  "clearEntry i j s =
     s\<lparr>rows := set2 (rows s) i j False,
       cols := set2 (cols s) i j False,
       blocks := set2 (blocks s) i j False\<rparr>"

definition markCell :: "SudokuBoard \<Rightarrow> nat \<Rightarrow> nat \<Rightarrow> SudokuSolver \<Rightarrow> SudokuSolver" where
  "markCell board i j s =
     (if board ! i ! j \<noteq> ''.'' then
        (let num = parseInt (board ! i ! j);
             blockIndex = blockIndexOf i j
         in s\<lparr>rows := markParsed (rows s) i num,
              cols := markParsed (cols s) j num,
              blocks := markParsed (blocks s) blockIndex num\<rparr>)
      else s)"

definition initializeTracking :: "SudokuBoard \<Rightarrow> SudokuSolver \<Rightarrow> SudokuSolver" where
  "initializeTracking board s =
     fold (\<lambda>i. fold (\<lambda>j. markCell board i j) [0..<9]) [0..<9]
       (fold (\<lambda>i. fold (\<lambda>j. clearEntry i j) [0..<10]) [0..<9] s)"

text \<open>
  \<^verbatim>\<open>solveHelper\<close> and its loop over the digits 1..9 (\<open>tryDigits\<close>, entered with
  \<open>num = 1\<close>). The result is the returned boolean with the solver and the board as the
  call leaves them. \<^verbatim>\<open>solve\<close> starts the search at (0, 0) and the search moves through
  0..9 in both indices; an index beyond 9 makes the source read a row or a cell that a
  board does not have: a row index above 9 raises a \<^verbatim>\<open>TypeError\<close>, and a column index
  above 9 recurses without end until the call stack is exhausted (\<^verbatim>\<open>RangeError\<close>).
\<close>

datatype error = TypeError | RangeError

text \<open>What is left of the search from a cell: it bounds the depth of the recursion.\<close>

definition searchWeight :: "nat \<Rightarrow> nat \<Rightarrow> nat" where
  "searchWeight row col = (if 9 \<le> row \<or> 9 < col then 0 else ((9 - row) * 10 + (10 - col)) * 12)"

function solveHelper ::
    "nat \<Rightarrow> nat \<Rightarrow> SudokuSolver \<times> SudokuBoard \<Rightarrow> error + (bool \<times> SudokuSolver \<times> SudokuBoard)"
  and tryDigits ::
    "nat \<Rightarrow> nat \<Rightarrow> nat \<Rightarrow> nat \<Rightarrow> SudokuSolver \<times> SudokuBoard \<Rightarrow> error + (bool \<times> SudokuSolver \<times> SudokuBoard)"
  where
  "solveHelper row col (s, board) =
     (if row = 9 then Inr (True, s, board)
      else if 9 < row then Inl TypeError
      else if col = 9 then solveHelper (row + 1) 0 (s, board)
      else if 9 < col then Inl RangeError
      else if board ! row ! col \<noteq> ''.'' then solveHelper row (col + 1) (s, board)
      else tryDigits row col (blockIndexOf row col) 1 (s, board))"
| "tryDigits row col blockIndex num (s, board) =
     (if num \<le> 9 then
        (if \<not> rows s ! row ! num \<and> \<not> cols s ! col ! num \<and> \<not> blocks s ! blockIndex ! num then
           (case solveHelper row (col + 1)
                   (s\<lparr>rows := set2 (rows s) row num True,
                      cols := set2 (cols s) col num True,
                      blocks := set2 (blocks s) blockIndex num True\<rparr>,
                    set2 board row col (toString num)) of
              Inl e \<Rightarrow> Inl e
            | Inr (found, s', board') \<Rightarrow>
                if found then Inr (True, s', board')
                else tryDigits row col blockIndex (num + 1)
                       (s'\<lparr>rows := set2 (rows s') row num False,
                           cols := set2 (cols s') col num False,
                           blocks := set2 (blocks s') blockIndex num False\<rparr>,
                        set2 board' row col ''.''))
         else tryDigits row col blockIndex (num + 1) (s, board))
      else Inr (False, s, board))"
  by pat_completeness auto

termination
  by (relation "measure (\<lambda>x. case x of
          Inl (row, col, st) \<Rightarrow> searchWeight row col
        | Inr (row, col, blockIndex, num, st) \<Rightarrow> searchWeight row (col + 1) + 1 + (10 - num))")
     (auto simp: searchWeight_def)

declare solveHelper.simps [simp del] tryDigits.simps [simp del]

definition solve :: "SudokuSolver \<Rightarrow> SudokuBoard \<Rightarrow> error + (bool \<times> SudokuSolver \<times> SudokuBoard)" where
  "solve s board = solveHelper 0 0 (initializeTracking board s, board)"

text \<open>\<^verbatim>\<open>solveSudoku\<close>: a fresh solver for one call; the caller sees the boolean and the board.\<close>

definition solveSudoku :: "SudokuBoard \<Rightarrow> error + (bool \<times> SudokuBoard)" where
  "solveSudoku board =
     (case solve newSolver board of
        Inl e \<Rightarrow> Inl e
      | Inr (found, s, board') \<Rightarrow> Inr (found, board'))"

text \<open>\<^verbatim>\<open>board.map((row) => [...row])\<close>: a copy, cell for cell.\<close>

definition copyBoardForSolving :: "SudokuBoard \<Rightarrow> SudokuBoard" where
  "copyBoardForSolving board = map (\<lambda>row. map (\<lambda>cell. cell) row) board"

section \<open>Loops that return early\<close>

text \<open>
  A \<^verbatim>\<open>for\<close> loop whose body may \<^verbatim>\<open>return\<close> from the enclosing function: the body
  yields \<open>None\<close> when it returns early and the next loop state otherwise.
\<close>

fun forEach :: "'a list \<Rightarrow> ('a \<Rightarrow> 's \<Rightarrow> 's option) \<Rightarrow> 's \<Rightarrow> 's option" where
  "forEach [] body s = Some s"
| "forEach (x # xs) body s =
     (case body x s of None \<Rightarrow> None | Some s' \<Rightarrow> forEach xs body s')"

section \<open>The validity check\<close>

text \<open>
  \<^verbatim>\<open>isValidSudoku\<close> keeps, for every row, column and block, the set of values seen so
  far, and returns false at the first value that is already in one of its three sets.
\<close>

record SeenSets =
  rowSets :: "string set list"
  colSets :: "string set list"
  blockSets :: "string set list"

definition noneSeen :: SeenSets where
  "noneSeen = \<lparr>rowSets = replicate 9 {}, colSets = replicate 9 {}, blockSets = replicate 9 {}\<rparr>"

definition validStep :: "SudokuBoard \<Rightarrow> nat \<Rightarrow> nat \<Rightarrow> SeenSets \<Rightarrow> SeenSets option" where
  "validStep board i j st =
     (let v = board ! i ! j in
      if v \<noteq> ''.'' then
        (let blockIndex = blockIndexOf i j in
         if v \<in> rowSets st ! i \<or> v \<in> colSets st ! j \<or> v \<in> blockSets st ! blockIndex
         then None
         else Some (st\<lparr>rowSets := (rowSets st)[i := insert v (rowSets st ! i)],
                        colSets := (colSets st)[j := insert v (colSets st ! j)],
                        blockSets := (blockSets st)[blockIndex := insert v (blockSets st ! blockIndex)]\<rparr>))
      else Some st)"

definition isValidSudoku :: "SudokuBoard \<Rightarrow> bool" where
  "isValidSudoku board =
     (case forEach [0..<9] (\<lambda>i. forEach [0..<9] (\<lambda>j. validStep board i j)) noneSeen of
        None \<Rightarrow> False
      | Some st \<Rightarrow> True)"

section \<open>Comparison with the solved board\<close>

text \<open>
  JavaScript numbers are modelled by the reals: the counts are at most 81 and the
  quotients are taken exactly. \<^verbatim>\<open>Math.round\<close> rounds to the nearest integer, a half
  upwards.
\<close>

definition Math_round :: "real \<Rightarrow> int" where
  "Math_round x = \<lfloor>x + 1 / 2\<rfloor>"

record ComparisonResult =
  correctCells :: "(nat \<times> nat) list"
  incorrectCells :: "(nat \<times> nat) list"
  emptyCells :: "(nat \<times> nat) list"
  accuracy :: real

text \<open>
  The loops of \<^verbatim>\<open>compareBoards\<close>; the state is the three lists and \<^verbatim>\<open>totalFilledCells\<close>.
\<close>

definition compareCell ::
    "SudokuBoard \<Rightarrow> SudokuBoard \<Rightarrow> nat \<Rightarrow> nat \<Rightarrow>
     (nat \<times> nat) list \<times> (nat \<times> nat) list \<times> (nat \<times> nat) list \<times> nat \<Rightarrow>
     (nat \<times> nat) list \<times> (nat \<times> nat) list \<times> (nat \<times> nat) list \<times> nat" where
  "compareCell currentBoard solvedBoard i j st =
     (case st of (correct, incorrect, empties, totalFilledCells) \<Rightarrow>
        (let currentValue = currentBoard ! i ! j;
             solvedValue = solvedBoard ! i ! j
         in if currentValue = ''.'' then (correct, incorrect, empties @ [(i, j)], totalFilledCells)
            else if currentValue = solvedValue
                 then (correct @ [(i, j)], incorrect, empties, totalFilledCells + 1)
                 else (correct, incorrect @ [(i, j)], empties, totalFilledCells + 1)))"

definition compareLoop ::
    "SudokuBoard \<Rightarrow> SudokuBoard \<Rightarrow>
     (nat \<times> nat) list \<times> (nat \<times> nat) list \<times> (nat \<times> nat) list \<times> nat" where
  "compareLoop currentBoard solvedBoard =
     fold (\<lambda>i. fold (\<lambda>j. compareCell currentBoard solvedBoard i j) [0..<9]) [0..<9] ([], [], [], 0)"

definition compareBoards :: "SudokuBoard \<Rightarrow> SudokuBoard \<Rightarrow> ComparisonResult" where
  "compareBoards currentBoard solvedBoard =
     (case compareLoop currentBoard solvedBoard of (correct, incorrect, empties, totalFilledCells) \<Rightarrow>
        (let acc = (if totalFilledCells > 0
                    then (real (length correct) / real totalFilledCells) * 100 else 0)
         in \<lparr>correctCells = correct, incorrectCells = incorrect, emptyCells = empties,
             accuracy = real_of_int (Math_round (acc * 100)) / 100\<rparr>))"

text \<open>
  Following the words of the specification: rounding to two decimal places, a half
  upwards, decided by the third decimal digit.
\<close>

definition roundHalfUp2dp :: "real \<Rightarrow> real" where
  "roundHalfUp2dp x =
     (let thousandths = \<lfloor>x * 1000\<rfloor>;
          kept = thousandths div 10;
          third = thousandths mod 10
      in real_of_int (if 5 \<le> third then kept + 1 else kept) / 100)"

section \<open>Hints\<close>

text \<open>
  The hint is the object \<^verbatim>\<open>{row, col, value}\<close>; \<open>None\<close> is \<^verbatim>\<open>null\<close>. The number that
  \<^verbatim>\<open>Math.random()\<close> returns, at least 0 and below 1, is the argument \<open>random\<close>.
\<close>

record Hint =
  hintRow :: nat
  hintCol :: nat
  hintValue :: string

definition availableHints :: "SudokuBoard \<Rightarrow> bool list list \<Rightarrow> (nat \<times> nat) list" where
  "availableHints currentBoard originalCells =
     fold (\<lambda>i. fold (\<lambda>j hs. if currentBoard ! i ! j = ''.'' \<and> \<not> originalCells ! i ! j
                               then hs @ [(i, j)] else hs) [0..<9]) [0..<9] []"

definition getHint :: "SudokuBoard \<Rightarrow> SudokuBoard \<Rightarrow> bool list list \<Rightarrow> real \<Rightarrow> Hint option" where
  "getHint currentBoard solvedBoard originalCells random =
     (let hs = availableHints currentBoard originalCells in
      if length hs = 0 then None
      else (let randomIndex = nat \<lfloor>random * real (length hs)\<rfloor> in
            case hs ! randomIndex of (r, c) \<Rightarrow>
              Some \<lparr>hintRow = r, hintCol = c, hintValue = solvedBoard ! r ! c\<rparr>))"

section \<open>Validation statistics\<close>

text \<open>
  The fields \<open>correctCount\<close>, \<open>incorrectCount\<close>, \<open>originalCount\<close> and \<open>statsAccuracy\<close> are
  \<^verbatim>\<open>correctCells\<close>, \<^verbatim>\<open>incorrectCells\<close>, \<^verbatim>\<open>originalCells\<close> and \<^verbatim>\<open>accuracy\<close> of the
  returned object, which are numbers there.
\<close>

record ValidationStats =
  totalCells :: nat
  filledCells :: nat
  correctCount :: nat
  incorrectCount :: nat
  originalCount :: nat
  statsAccuracy :: real
  isComplete :: bool
  isValid :: bool

definition statsCell ::
    "SudokuBoard \<Rightarrow> SudokuBoard \<Rightarrow> bool list list \<Rightarrow> nat \<Rightarrow> nat \<Rightarrow>
     nat \<times> nat \<times> nat \<Rightarrow> nat \<times> nat \<times> nat" where
  "statsCell currentBoard solvedBoard originalCells i j st =
     (case st of (filled, correct, original) \<Rightarrow>
        if originalCells ! i ! j then (filled, correct, original + 1)
        else if currentBoard ! i ! j \<noteq> ''.'' then
          (if currentBoard ! i ! j = solvedBoard ! i ! j
           then (filled + 1, correct + 1, original)
           else (filled + 1, correct, original))
        else (filled, correct, original))"

definition statsLoop :: "SudokuBoard \<Rightarrow> SudokuBoard \<Rightarrow> bool list list \<Rightarrow> nat \<times> nat \<times> nat" where
  "statsLoop currentBoard solvedBoard originalCells =
     fold (\<lambda>i. fold (\<lambda>j. statsCell currentBoard solvedBoard originalCells i j) [0..<9]) [0..<9]
       (0, 0, 0)"

definition getValidationStats ::
    "SudokuBoard \<Rightarrow> SudokuBoard \<Rightarrow> bool list list \<Rightarrow> ValidationStats" where
  "getValidationStats currentBoard solvedBoard originalCells =
     (case statsLoop currentBoard solvedBoard originalCells of (filled, correct, original) \<Rightarrow>
        (let total = 81;
             incorrect = filled - correct;
             acc = (if filled > 0 then (real correct / real filled) * 100 else 0)
         in \<lparr>totalCells = total, filledCells = filled, correctCount = correct,
             incorrectCount = incorrect, originalCount = original,
             statsAccuracy = real_of_int (Math_round (acc * 100)) / 100,
             isComplete = (filled + original = total),
             isValid = (isValidSudoku currentBoard \<and> incorrect = 0)\<rparr>))"

section \<open>Conflict detection\<close>

text \<open>
  \<^verbatim>\<open>checkIllegalMove\<close> appends positions to one list in three passes. A row is scanned
  from the left with the set of values seen; at the first value seen before, every cell
  of the row with that value is pushed and the scan of that row stops (\<^verbatim>\<open>break\<close>).
\<close>

record IllegalMoves =
  conflicts :: "(nat \<times> nat) list"

fun scanRow ::
    "SudokuBoard \<Rightarrow> nat \<Rightarrow> nat list \<Rightarrow> string set \<Rightarrow> (nat \<times> nat) list \<Rightarrow> (nat \<times> nat) list" where
  "scanRow board r [] seen cs = cs"
| "scanRow board r (c # rest) seen cs =
     (let v = board ! r ! c in
      if v \<noteq> ''.'' \<and> v \<noteq> '''' then
        (if v \<in> seen
         then fold (\<lambda>c' cs. if board ! r ! c' = v then cs @ [(r, c')] else cs) [0..<9] cs
         else scanRow board r rest (insert v seen) cs)
      else scanRow board r rest seen cs)"

text \<open>A column is scanned the same way; a cell already in the list is not pushed again.\<close>

fun scanCol ::
    "SudokuBoard \<Rightarrow> nat \<Rightarrow> nat list \<Rightarrow> string set \<Rightarrow> (nat \<times> nat) list \<Rightarrow> (nat \<times> nat) list" where
  "scanCol board c [] seen cs = cs"
| "scanCol board c (r # rest) seen cs =
     (let v = board ! r ! c in
      if v \<noteq> ''.'' \<and> v \<noteq> '''' then
        (if v \<in> seen
         then fold (\<lambda>r' cs. if board ! r' ! c = v
                              then (if \<not> list_ex (\<lambda>(cr, cc). cr = r' \<and> cc = c) cs
                                    then cs @ [(r', c)] else cs)
                              else cs) [0..<9] cs
         else scanCol board c rest (insert v seen) cs)
      else scanCol board c rest seen cs)"

text \<open>
  A block is scanned cell by cell; a cell whose value was seen before in the block is
  pushed onto \<^verbatim>\<open>blockConflicts\<close>, which is appended to the list after the block.
\<close>

definition blockCell ::
    "SudokuBoard \<Rightarrow> nat \<Rightarrow> nat \<Rightarrow> nat \<Rightarrow> nat \<Rightarrow> string set \<times> (nat \<times> nat) list \<Rightarrow>
     string set \<times> (nat \<times> nat) list" where
  "blockCell board blockRow blockCol r c st =
     (case st of (seen, blockConflicts) \<Rightarrow>
        (let row = blockRow * 3 + r;
             col = blockCol * 3 + c;
             v = board ! row ! col
         in if v \<noteq> ''.'' \<and> v \<noteq> '''' then
              (if v \<in> seen then (seen, blockConflicts @ [(row, col)])
               else (insert v seen, blockConflicts))
            else (seen, blockConflicts)))"

definition scanBlock :: "SudokuBoard \<Rightarrow> nat \<Rightarrow> nat \<Rightarrow> (nat \<times> nat) list \<Rightarrow> (nat \<times> nat) list" where
  "scanBlock board blockRow blockCol cs =
     cs @ snd (fold (\<lambda>r. fold (\<lambda>c. blockCell board blockRow blockCol r c) [0..<3]) [0..<3] ({}, []))"

definition checkIllegalMove :: "SudokuBoard \<Rightarrow> IllegalMoves" where
  "checkIllegalMove board =
     (let cs1 = fold (\<lambda>row. scanRow board row [0..<9] {}) [0..<9] [];
          cs2 = fold (\<lambda>col. scanCol board col [0..<9] {}) [0..<9] cs1;
          cs3 = fold (\<lambda>blockRow. fold (\<lambda>blockCol. scanBlock board blockRow blockCol) [0..<3]) [0..<3] cs2
      in \<lparr>conflicts = cs3\<rparr>)"

text \<open>
  \<^verbatim>\<open>checkCompletion\<close>: false at the first cell that is \<^verbatim>\<open>"."\<close> or the empty string,
  otherwise whether the conflict list has length 0.
\<close>

definition checkCompletion :: "SudokuBoard \<Rightarrow> bool" where
  "checkCompletion board =
     (case forEach [0..<9] (\<lambda>row. forEach [0..<9]
              (\<lambda>col u. if board ! row ! col = ''.'' \<or> board ! row ! col = '''' then None else Some u)) () of
        None \<Rightarrow> False
      | Some u \<Rightarrow> length (conflicts (checkIllegalMove board)) = 0)"

section \<open>Boards used below\<close>

text \<open>The classic puzzle, which is also the fallback board of \<^verbatim>\<open>fetchPuzzle\<close>, and its solution.\<close>

definition classic :: SudokuBoard where
  "classic =
    [[''5'', ''3'', ''.'', ''.'', ''7'', ''.'', ''.'', ''.'', ''.''],
     [''6'', ''.'', ''.'', ''1'', ''9'', ''5'', ''.'', ''.'', ''.''],
     [''.'', ''9'', ''8'', ''.'', ''.'', ''.'', ''.'', ''6'', ''.''],
     [''8'', ''.'', ''.'', ''.'', ''6'', ''.'', ''.'', ''.'', ''3''],
     [''4'', ''.'', ''.'', ''8'', ''.'', ''3'', ''.'', ''.'', ''1''],
     [''7'', ''.'', ''.'', ''.'', ''2'', ''.'', ''.'', ''.'', ''6''],
     [''.'', ''6'', ''.'', ''.'', ''.'', ''.'', ''2'', ''8'', ''.''],
     [''.'', ''.'', ''.'', ''4'', ''1'', ''9'', ''.'', ''.'', ''5''],
     [''.'', ''.'', ''.'', ''.'', ''8'', ''.'', ''.'', ''7'', ''9'']]"

definition classicSolved :: SudokuBoard where
  "classicSolved =
    [[''5'', ''3'', ''4'', ''6'', ''7'', ''8'', ''9'', ''1'', ''2''],
     [''6'', ''7'', ''2'', ''1'', ''9'', ''5'', ''3'', ''4'', ''8''],
     [''1'', ''9'', ''8'', ''3'', ''4'', ''2'', ''5'', ''6'', ''7''],
     [''8'', ''5'', ''9'', ''7'', ''6'', ''1'', ''4'', ''2'', ''3''],
     [''4'', ''2'', ''6'', ''8'', ''5'', ''3'', ''7'', ''9'', ''1''],
     [''7'', ''1'', ''3'', ''9'', ''2'', ''4'', ''8'', ''5'', ''6''],
     [''9'', ''6'', ''1'', ''5'', ''3'', ''7'', ''2'', ''8'', ''4''],
     [''2'', ''8'', ''7'', ''4'', ''1'', ''9'', ''6'', ''3'', ''5''],
     [''3'', ''4'', ''5'', ''2'', ''8'', ''6'', ''1'', ''7'', ''9'']]"

definition blankBoard :: SudokuBoard where
  "blankBoard = replicate 9 (replicate 9 ''.'')"

text \<open>A solver whose tables are all true, as no search leaves them.\<close>

definition fullSolver :: SudokuSolver where
  "fullSolver = \<lparr>rows = replicate 9 (replicate 10 True),
                 cols = replicate 9 (replicate 10 True),
                 blocks = replicate 9 (replicate 10 True)\<rparr>"

text \<open>
  A board without conflicts that has no solution. The first row lacks 1, 2 and 9 and
  has three empty cells, the first two and the last; the last column holds 9, 1 and 2
  below the first row, so no digit fits the last cell of the first row. The search
  places a digit in each of the first two cells, fails at the last one, takes the digits
  back and tries the next ones: six ways in all, each undone.
\<close>

definition backtrackBoard :: SudokuBoard where
  "backtrackBoard =
     (replicate 2 ''.'' @ map toString [3..<9] @ [''.'']) #
     (replicate 8 ''.'' @ [''9'']) #
     (replicate 8 ''.'' @ [''1'']) #
     (replicate 8 ''.'' @ [''2'']) #
     replicate 5 (replicate 9 ''.'')"

text \<open>The solved board with a second 5 written into its first row, over the 3.\<close>

definition filledTwoFivesBoard :: SudokuBoard where
  "filledTwoFivesBoard = set2 classicSolved 0 1 ''5''"

text \<open>The same board with its last cell emptied.\<close>

definition twoFivesBoard :: SudokuBoard where
  "twoFivesBoard = set2 filledTwoFivesBoard 8 8 ''.''"

text \<open>Two 5s in the first block, on a diagonal: they share no row and no column.\<close>

definition blockPairBoard :: SudokuBoard where
  "blockPairBoard = set2 (set2 blankBoard 0 0 ''5'') 1 1 ''5''"

text \<open>Two 5s side by side in the first row, and so in the first block as well.\<close>

definition rowPairBoard :: SudokuBoard where
  "rowPairBoard = set2 (set2 blankBoard 0 0 ''5'') 0 1 ''5''"

text \<open>Two 5s in the first column, in different blocks.\<close>

definition colPairBoard :: SudokuBoard where
  "colPairBoard = set2 (set2 blankBoard 0 0 ''5'') 4 0 ''5''"

text \<open>The solved board with its first cell emptied, and a mask that marks no cell as given.\<close>

definition hintBoard :: SudokuBoard where
  "hintBoard = set2 classicSolved 0 0 ''.''"

definition noGivens :: "bool list list" where
  "noGivens = replicate 9 (replicate 9 False)"

text \<open>Three entries 5, 5, 7 at the start of the first row; the first agrees with the solved board.\<close>

definition threeEntriesBoard :: SudokuBoard where
  "threeEntriesBoard = set2 rowPairBoard 0 2 ''7''"

section \<open>Duplicates, as the two validity checks see them\<close>

text \<open>
  The notions in which \<^verbatim>\<open>isValidSudoku\<close> and \<^verbatim>\<open>checkIllegalMove\<close> are compared. The
  cell values of a well-formed puzzle are \<^verbatim>\<open>"."\<close> and the digits \<^verbatim>\<open>"1"\<close> .. \<^verbatim>\<open>"9"\<close>.
\<close>

definition cellValues :: "string list" where
  "cellValues = ''.'' # map toString [1..<10]"

definition validCells :: "SudokuBoard \<Rightarrow> bool" where
  "validCells board \<longleftrightarrow> list_all (list_all (\<lambda>v. v \<in> set cellValues)) board"

text \<open>
  Two cells share a unit when they share a row, a column or a block. A board has a clash
  when two different cells of one unit hold the same value and that value counts as
  filled; what counts as filled is a parameter, since \<^verbatim>\<open>isValidSudoku\<close> skips \<^verbatim>\<open>"."\<close> and
  \<^verbatim>\<open>checkIllegalMove\<close> skips \<^verbatim>\<open>"."\<close> and the empty string.
\<close>

definition cellAt :: "SudokuBoard \<Rightarrow> nat \<times> nat \<Rightarrow> string" where
  "cellAt board p = board ! fst p ! snd p"

definition sameUnit :: "nat \<times> nat \<Rightarrow> nat \<times> nat \<Rightarrow> bool" where
  "sameUnit p q \<longleftrightarrow>
     fst p = fst q \<or> snd p = snd q \<or> blockIndexOf (fst p) (snd p) = blockIndexOf (fst q) (snd q)"

definition clash :: "(string \<Rightarrow> bool) \<Rightarrow> SudokuBoard \<Rightarrow> bool" where
  "clash filled board \<longleftrightarrow>
     (\<exists>p q. fst p < 9 \<and> snd p < 9 \<and> fst q < 9 \<and> snd q < 9 \<and> p \<noteq> q \<and> sameUnit p q \<and>
            filled (cellAt board p) \<and> cellAt board p = cellAt board q)"

definition isFilled :: "string \<Rightarrow> bool" where
  "isFilled v \<longleftrightarrow> v \<noteq> ''.'' \<and> v \<noteq> ''''"

text \<open>What the three sets of \<^verbatim>\<open>isValidSudoku\<close> hold for a cell, and their shape.\<close>

definition seenIn :: "SeenSets \<Rightarrow> nat \<times> nat \<Rightarrow> string \<Rightarrow> bool" where
  "seenIn st p v \<longleftrightarrow>
     v \<in> rowSets st ! fst p \<or> v \<in> colSets st ! snd p \<or> v \<in> blockSets st ! blockIndexOf (fst p) (snd p)"

definition wf_seen :: "SeenSets \<Rightarrow> bool" where
  "wf_seen st \<longleftrightarrow> length (rowSets st) = 9 \<and> length (colSets st) = 9 \<and> length (blockSets st) = 9"

text \<open>
  A scan of \<^verbatim>\<open>checkIllegalMove\<close> through the values of one unit meets a filled value
  that it has seen before.
\<close>

fun firstRepeat :: "string list \<Rightarrow> string set \<Rightarrow> bool" where
  "firstRepeat [] seen = False"
| "firstRepeat (v # vs) seen =
     (if isFilled v then v \<in> seen \<or> firstRepeat vs (insert v seen) else firstRepeat vs seen)"

definition rowRepeat :: "SudokuBoard \<Rightarrow> nat \<Rightarrow> bool" where
  "rowRepeat board r \<longleftrightarrow> firstRepeat (map (\<lambda>c. board ! r ! c) [0..<9]) {}"

definition colRepeat :: "SudokuBoard \<Rightarrow> nat \<Rightarrow> bool" where
  "colRepeat board c \<longleftrightarrow> firstRepeat (map (\<lambda>r. board ! r ! c) [0..<9]) {}"

definition blockRepeat :: "SudokuBoard \<Rightarrow> nat \<times> nat \<Rightarrow> bool" where
  "blockRepeat board k \<longleftrightarrow>
     firstRepeat (map (\<lambda>p. board ! (fst k * 3 + fst p) ! (snd k * 3 + snd p))
                      (List.product [0..<3] [0..<3])) {}"

section \<open>What a solution is\<close>

text \<open>
  Following the words of the specification: a complete, constraint-satisfying assignment
  has a digit in every cell and no digit twice in a row, a column or a block; it extends
  a board when it agrees with the board on every cell that is not \<^verbatim>\<open>"."\<close>; a board is
  solvable when such an assignment exists.
\<close>

definition blockValues :: "SudokuBoard \<Rightarrow> nat \<Rightarrow> string list" where
  "blockValues board k =
     concat (map (\<lambda>r. map (\<lambda>c. board ! ((k div 3) * 3 + r) ! ((k mod 3) * 3 + c)) [0..<3]) [0..<3])"

definition isSolution :: "SudokuBoard \<Rightarrow> bool" where
  "isSolution board \<longleftrightarrow>
     wf_board board \<and>
     (\<forall>i < 9. \<forall>j < 9. board ! i ! j \<in> set (map toString [1..<10])) \<and>
     (\<forall>i < 9. distinct (board ! i)) \<and>
     (\<forall>j < 9. distinct (map (\<lambda>row. row ! j) board)) \<and>
     (\<forall>k < 9. distinct (blockValues board k))"

definition extendsBoard :: "SudokuBoard \<Rightarrow> SudokuBoard \<Rightarrow> bool" where
  "extendsBoard full board \<longleftrightarrow> (\<forall>i < 9. \<forall>j < 9. board ! i ! j \<noteq> ''.'' \<longrightarrow> full ! i ! j = board ! i ! j)"

definition solvable :: "SudokuBoard \<Rightarrow> bool" where
  "solvable board \<longleftrightarrow> (\<exists>full. isSolution full \<and> extendsBoard full board)"

section \<open>The search backs out of what it places\<close>

lemma set2_restore:
  "board ! row ! col = v \<Longrightarrow> set2 (set2 board row col x) row col v = board"
proof -
  assume "board ! row ! col = v"
  then have "(board ! row)[col := v] = board ! row"
    by (metis list_update_id)
  then show ?thesis
    by (cases "row < length board") (simp_all add: set2_def list_update_beyond)
qed

lemma search_backs_out:
  "(\<forall>s' board'. solveHelper row col st = Inr (False, s', board') \<longrightarrow> board' = snd st)"
  "(snd st2 ! row2 ! col2 = ''.'' \<longrightarrow>
     (\<forall>s' board'. tryDigits row2 col2 blockIndex num st2 = Inr (False, s', board') \<longrightarrow> board' = snd st2))"
proof (induction row col st and row2 col2 blockIndex num st2 rule: solveHelper_tryDigits.induct)
  case (1 row col s board)
  then show ?case
    by (subst solveHelper.simps) auto
next
  case (2 row col blockIndex num s board)
  show ?case
  proof (intro impI allI)
    fix s' board'
    assume dot: "snd (s, board) ! row ! col = ''.''"
      and res: "tryDigits row col blockIndex num (s, board) = Inr (False, s', board')"
    show "board' = snd (s, board)"
    proof (cases "num \<le> 9")
      case False
      with res show ?thesis by (simp add: tryDigits.simps)
    next
      case le: True
      show ?thesis
      proof (cases "\<not> rows s ! row ! num \<and> \<not> cols s ! col ! num \<and> \<not> blocks s ! blockIndex ! num")
        case False
        with le res have "tryDigits row col blockIndex (num + 1) (s, board) = Inr (False, s', board')"
          by (subst (asm) tryDigits.simps) auto
        with "2.IH"(3)[OF le False] dot show ?thesis by simp
      next
        case free: True
        let ?st1 = "(s\<lparr>rows := set2 (rows s) row num True,
                      cols := set2 (cols s) col num True,
                      blocks := set2 (blocks s) blockIndex num True\<rparr>,
                    set2 board row col (toString num))"
        from le free res obtain s1 b1 where
          sub: "solveHelper row (col + 1) ?st1 = Inr (False, s1, b1)"
          and rest: "tryDigits row col blockIndex (num + 1)
                       (s1\<lparr>rows := set2 (rows s1) row num False,
                           cols := set2 (cols s1) col num False,
                           blocks := set2 (blocks s1) blockIndex num False\<rparr>,
                        set2 b1 row col ''.'') = Inr (False, s', board')"
          by (subst (asm) tryDigits.simps) (auto split: sum.splits if_splits)
        from "2.IH"(1)[OF le free] sub have b1: "b1 = set2 board row col (toString num)"
          by simp
        have undone: "set2 b1 row col ''.'' = board"
          using dot by (simp add: b1 set2_restore)
        from "2.IH"(2)[OF le free sub refl refl] rest undone dot
        show ?thesis by simp
      qed
    qed
  qed
qed


lemma search_returns:
  "row \<le> 9 \<and> col \<le> 9 \<longrightarrow> solveHelper row col st \<noteq> Inl e"
  "row2 \<le> 9 \<and> col2 < 9 \<longrightarrow> tryDigits row2 col2 blockIndex num st2 \<noteq> Inl e"
proof (induction row col st and row2 col2 blockIndex num st2 rule: solveHelper_tryDigits.induct)
  case (1 row col s board)
  then show ?case
    by (subst solveHelper.simps) auto
next
  case (2 row col blockIndex num s board)
  show ?case
  proof (intro impI)
    assume range: "row \<le> 9 \<and> col < 9"
    show "tryDigits row col blockIndex num (s, board) \<noteq> Inl e"
    proof (cases "num \<le> 9")
      case False
      then show ?thesis by (subst tryDigits.simps) auto
    next
      case le: True
      show ?thesis
      proof (cases "\<not> rows s ! row ! num \<and> \<not> cols s ! col ! num \<and> \<not> blocks s ! blockIndex ! num")
        case False
        with "2.IH"(3)[OF le False] range le show ?thesis
          by (subst tryDigits.simps) auto
      next
        case free: True
        from "2.IH"(1)[OF le free] range "2.IH"(2)[OF le free] le free show ?thesis
          by (subst tryDigits.simps) (auto split: sum.splits)
      qed
    qed
  qed
qed

lemma solve_returns: "\<exists>found s' board'. solve s board = Inr (found, s', board')"
proof (cases "solve s board")
  case (Inl e)
  with search_returns(1)[of 0 0 "(initializeTracking board s, board)" e] show ?thesis
    by (simp add: solve_def)
next
  case (Inr r)
  then show ?thesis by (cases r) auto
qed

lemma fold_clear_rows:
  "rows (fold (\<lambda>j. clearEntry i j) js s) = fold (\<lambda>j t. set2 t i j False) js (rows s)"
  "cols (fold (\<lambda>j. clearEntry i j) js s) = fold (\<lambda>j t. set2 t i j False) js (cols s)"
  "blocks (fold (\<lambda>j. clearEntry i j) js s) = fold (\<lambda>j t. set2 t i j False) js (blocks s)"
  by (induction js arbitrary: s) (simp_all add: clearEntry_def)

lemma fold_clear_tables:
  "rows (fold (\<lambda>i. fold (\<lambda>j. clearEntry i j) js) is s) = fold (\<lambda>i. fold (\<lambda>j t. set2 t i j False) js) is (rows s)"
  "cols (fold (\<lambda>i. fold (\<lambda>j. clearEntry i j) js) is s) = fold (\<lambda>i. fold (\<lambda>j t. set2 t i j False) js) is (cols s)"
  "blocks (fold (\<lambda>i. fold (\<lambda>j. clearEntry i j) js) is s) = fold (\<lambda>i. fold (\<lambda>j t. set2 t i j False) js) is (blocks s)"
  by (induction "is" arbitrary: s) (simp_all add: fold_clear_rows)

lemma clear_row_list:
  "n \<le> length r \<Longrightarrow> fold (\<lambda>j r. r[j := False]) [0..<n] r = replicate n False @ drop n r"
proof (induction n)
  case 0
  then show ?case by simp
next
  case (Suc n)
  then have "fold (\<lambda>j r. r[j := False]) [0..<Suc n] r = (replicate n False @ drop n r)[n := False]"
    by simp
  also have "\<dots> = replicate n False @ (drop n r)[0 := False]"
    by (simp add: list_update_append)
  also have "(drop n r)[0 := False] = False # drop (Suc n) r"
    using Suc.prems by (cases "drop n r") (auto simp: drop_Suc drop_tl)
  finally show ?case by (simp add: replicate_append_same)
qed

lemma clear_table_row:
  "i < length t \<Longrightarrow> fold (\<lambda>j t. set2 t i j False) js t = t[i := fold (\<lambda>j r. r[j := False]) js (t ! i)]"
  by (induction js arbitrary: t) (simp_all add: set2_def)

lemma clear_table:
  "n \<le> length t \<Longrightarrow> \<forall>r \<in> set t. length r = 10 \<Longrightarrow>
   fold (\<lambda>i. fold (\<lambda>j t. set2 t i j False) [0..<10]) [0..<n] t = replicate n (replicate 10 False) @ drop n t"
proof (induction n)
  case 0
  then show ?case by simp
next
  case (Suc n)
  let ?t' = "replicate n (replicate 10 False) @ drop n t"
  have len: "n < length ?t'" using Suc.prems by simp
  have row: "?t' ! n = t ! n" using Suc.prems by (simp add: nth_append)
  have lr: "length (t ! n) = 10" using Suc.prems by simp
  have "fold (\<lambda>i. fold (\<lambda>j t. set2 t i j False) [0..<10]) [0..<Suc n] t
        = fold (\<lambda>j t. set2 t n j False) [0..<10] ?t'"
    using Suc by simp
  also have "\<dots> = ?t'[n := replicate 10 False]"
    using clear_row_list[of 10 "t ! n"] lr by (simp only: clear_table_row[OF len] row) simp
  also have "\<dots> = replicate n (replicate 10 False) @ (drop n t)[0 := replicate 10 False]"
    by (simp add: list_update_append)
  also have "(drop n t)[0 := replicate 10 False] = replicate 10 False # drop (Suc n) t"
    using Suc.prems by (cases "drop n t") (auto simp: drop_Suc drop_tl)
  finally show ?case by (simp add: replicate_append_same)
qed

lemma clear_wf_table:
  "wf_table t \<Longrightarrow> fold (\<lambda>i. fold (\<lambda>j t. set2 t i j False) [0..<10]) [0..<9] t = replicate 9 (replicate 10 False)"
  using clear_table[of 9 t] by (simp add: wf_table_def list_all_iff)

lemma clear_wf_solver:
  "wf_solver s \<Longrightarrow> fold (\<lambda>i. fold (\<lambda>j. clearEntry i j) [0..<10]) [0..<9] s = newSolver"
  by (rule SudokuSolver.equality) (simp_all add: fold_clear_tables clear_wf_table wf_solver_def newSolver_def)

lemma initializeTracking_fresh:
  "wf_solver s \<Longrightarrow> initializeTracking board s = initializeTracking board newSolver"
proof -
  have "wf_solver newSolver"
    by (simp add: wf_solver_def wf_table_def newSolver_def list_all_iff)
  then show "wf_solver s \<Longrightarrow> initializeTracking board s = initializeTracking board newSolver"
    by (simp only: initializeTracking_def clear_wf_solver)
qed

lemma wf_newSolver: "wf_solver newSolver"
  by (simp add: wf_solver_def wf_table_def newSolver_def list_all_iff)

lemma wf_fullSolver: "wf_solver fullSolver"
  by (simp add: wf_solver_def wf_table_def fullSolver_def list_all_iff)

section \<open>The tables keep their shape\<close>

lemma wf_table_set2: "wf_table t \<Longrightarrow> wf_table (set2 t i j v)"
proof (cases "i < length t")
  case True
  assume wf: "wf_table t"
  have "set (t[i := (t ! i)[j := v]]) \<subseteq> insert ((t ! i)[j := v]) (set t)"
    by (rule set_update_subset_insert)
  moreover have "length ((t ! i)[j := v]) = 10"
    using wf True by (simp add: wf_table_def list_all_length)
  ultimately show ?thesis
    using wf by (auto simp: wf_table_def set2_def list_all_iff)
next
  case False
  assume "wf_table t"
  with False show ?thesis by (simp add: set2_def list_update_beyond)
qed

lemma wf_table_markParsed: "wf_table t \<Longrightarrow> wf_table (markParsed t i num)"
  by (simp add: markParsed_def wf_table_set2 split: option.splits)

lemma wf_solver_markCell: "wf_solver s \<Longrightarrow> wf_solver (markCell board i j s)"
  by (simp add: markCell_def wf_solver_def wf_table_markParsed Let_def)

lemma fold_preserves: "P s \<Longrightarrow> (\<And>x s. P s \<Longrightarrow> P (f x s)) \<Longrightarrow> P (fold f xs s)"
  by (induction xs arbitrary: s) simp_all

lemma wf_solver_initializeTracking: "wf_solver s \<Longrightarrow> wf_solver (initializeTracking board s)"
proof -
  assume "wf_solver s"
  have "wf_solver (fold (\<lambda>j. markCell board i j) js s)" if "wf_solver s" for i js s
    using that by (rule fold_preserves) (rule wf_solver_markCell)
  then have "wf_solver (fold (\<lambda>i. fold (\<lambda>j. markCell board i j) [0..<9]) [0..<9] newSolver)"
    using wf_newSolver by (rule fold_preserves[rotated])
  with \<open>wf_solver s\<close> show ?thesis
    by (simp add: initializeTracking_def clear_wf_solver)
qed

lemma search_keeps_shape:
  "wf_solver (fst st) \<longrightarrow> (\<forall>found s' board'. solveHelper row col st = Inr (found, s', board') \<longrightarrow> wf_solver s')"
  "wf_solver (fst st2) \<longrightarrow> (\<forall>found s' board'. tryDigits row2 col2 blockIndex num st2 = Inr (found, s', board') \<longrightarrow> wf_solver s')"
proof (induction row col st and row2 col2 blockIndex num st2 rule: solveHelper_tryDigits.induct)
  case (1 row col s board)
  then show ?case
    by (subst solveHelper.simps) auto
next
  case (2 row col blockIndex num s board)
  show ?case
  proof (intro impI allI)
    fix found s' board'
    assume wf: "wf_solver (fst (s, board))"
      and res: "tryDigits row col blockIndex num (s, board) = Inr (found, s', board')"
    show "wf_solver s'"
    proof (cases "num \<le> 9")
      case False
      with res wf show ?thesis by (subst (asm) tryDigits.simps) simp
    next
      case le: True
      show ?thesis
      proof (cases "\<not> rows s ! row ! num \<and> \<not> cols s ! col ! num \<and> \<not> blocks s ! blockIndex ! num")
        case False
        with le res have "tryDigits row col blockIndex (num + 1) (s, board) = Inr (found, s', board')"
          by (subst (asm) tryDigits.simps) auto
        with "2.IH"(3)[OF le False] wf show ?thesis by simp
      next
        case free: True
        let ?st1 = "(s\<lparr>rows := set2 (rows s) row num True,
                      cols := set2 (cols s) col num True,
                      blocks := set2 (blocks s) blockIndex num True\<rparr>,
                    set2 board row col (toString num))"
        have wf1: "wf_solver (fst ?st1)"
          using wf by (simp add: wf_solver_def wf_table_set2)
        obtain f1 s1 b1 where sub: "solveHelper row (col + 1) ?st1 = Inr (f1, s1, b1)"
        proof (cases "solveHelper row (col + 1) ?st1")
          case (Inl e)
          with res le free have False
            by (subst (asm) tryDigits.simps) simp
          then show ?thesis ..
        next
          case (Inr r)
          with that show ?thesis by (cases r) auto
        qed
        from "2.IH"(1)[OF le free] wf1 sub have wfs1: "wf_solver s1"
          by blast
        show ?thesis
        proof (cases f1)
          case True
          with res le free sub have "s' = s1"
            by (subst (asm) tryDigits.simps) auto
          with wfs1 show ?thesis by simp
        next
          case False
          with res le free sub have rest: "tryDigits row col blockIndex (num + 1)
                       (s1\<lparr>rows := set2 (rows s1) row num False,
                           cols := set2 (cols s1) col num False,
                           blocks := set2 (blocks s1) blockIndex num False\<rparr>,
                        set2 b1 row col ''.'') = Inr (found, s', board')"
            by (subst (asm) tryDigits.simps) auto
          have "wf_solver (s1\<lparr>rows := set2 (rows s1) row num False,
                           cols := set2 (cols s1) col num False,
                           blocks := set2 (blocks s1) blockIndex num False\<rparr>)"
            using wfs1 by (simp add: wf_solver_def wf_table_set2)
          with "2.IH"(2)[OF le free sub refl refl False] rest show ?thesis
            by simp
        qed
      qed
    qed
  qed
qed

lemma solve_keeps_shape:
  "wf_solver s \<Longrightarrow> solve s board = Inr (found, s', board') \<Longrightarrow> wf_solver s'"
proof -
  assume wf: "wf_solver s" and run: "solve s board = Inr (found, s', board')"
  from wf have "wf_solver (fst (initializeTracking board s, board))"
    by (simp add: wf_solver_initializeTracking)
  with search_keeps_shape(1)[of "(initializeTracking board s, board)" 0 0] run
  show ?thesis unfolding solve_def by blast
qed

section \<open>The classic puzzle\<close>

lemma classic_search:
  "case solve newSolver classic of
     Inl e \<Rightarrow> False
   | Inr (found, s', board') \<Rightarrow> found \<and> board' = classicSolved"
  by code_simp

text \<open>
  C1. On the classic puzzle \<^verbatim>\<open>solve\<close> returns true and leaves exactly the solved board,
  whatever an earlier call left in the solver's tables.
\<close>

theorem solve_classic:
  "wf_solver s \<Longrightarrow> \<exists>s'. solve s classic = Inr (True, s', classicSolved)"
proof -
  assume "wf_solver s"
  then have "solve s classic = solve newSolver classic"
    by (simp add: solve_def initializeTracking_fresh)
  with classic_search show ?thesis
    by (auto split: sum.splits)
qed

theorem solve_classic_witness:
  "wf_solver fullSolver \<and> (\<exists>s'. solve fullSolver classic = Inr (True, s', classicSolved))"
  using solve_classic[of fullSolver] wf_fullSolver by simp

section \<open>A board with a conflict among its givens\<close>

lemma twoFivesBoard_unsolvable: "\<not> solvable twoFivesBoard"
proof
  assume "solvable twoFivesBoard"
  then obtain full where sol: "isSolution full" and ext: "extendsBoard full twoFivesBoard"
    by (auto simp: solvable_def)
  have a: "twoFivesBoard ! 0 ! 0 = ''5''" and b: "twoFivesBoard ! 0 ! 1 = ''5''"
    by code_simp+
  from ext have agree: "\<And>i j. i < 9 \<Longrightarrow> j < 9 \<Longrightarrow> twoFivesBoard ! i ! j \<noteq> ''.'' \<Longrightarrow>
      full ! i ! j = twoFivesBoard ! i ! j"
    by (simp add: extendsBoard_def)
  from agree[of 0 0] agree[of 0 1] a b have "full ! 0 ! 0 = ''5''" "full ! 0 ! 1 = ''5''"
    by simp_all
  moreover from sol have "distinct (full ! 0)" "length (full ! 0) = 9"
    by (auto simp: isSolution_def wf_board_def list_all_length)
  ultimately show False
    using nth_eq_iff_index_eq[of "full ! 0" 0 1] by simp
qed

text \<open>
  C2. The claim is that \<^verbatim>\<open>solve\<close> returns false on every unsolvable board, such as one
  with two given 5s in a row. On \<open>twoFivesBoard\<close>, which has two 5s in its first row and
  is not solvable (\<open>twoFivesBoard_unsolvable\<close>), the search fills the one empty cell
  and returns true.
\<close>

theorem solve_true_on_two_fives:
  "twoFivesBoard ! 0 ! 0 = ''5'' \<and> twoFivesBoard ! 0 ! 1 = ''5'' \<and>
   solveSudoku twoFivesBoard = Inr (True, set2 twoFivesBoard 8 8 ''9'')"
  by code_simp

section \<open>A failed search leaves the board as it was\<close>

lemma backtrack_search:
  "case solve newSolver backtrackBoard of
     Inl e \<Rightarrow> False
   | Inr (found, s', board') \<Rightarrow> \<not> found"
  by code_simp

lemma wf_backtrackBoard: "wf_board backtrackBoard"
  by code_simp

text \<open>The first cell is empty and the digit 1 is free there: the search places it.\<close>

lemma backtrack_places:
  "backtrackBoard ! 0 ! 0 = ''.'' \<and>
   \<not> rows (initializeTracking backtrackBoard newSolver) ! 0 ! 1 \<and>
   \<not> cols (initializeTracking backtrackBoard newSolver) ! 0 ! 1 \<and>
   \<not> blocks (initializeTracking backtrackBoard newSolver) ! blockIndexOf 0 0 ! 1"
  by code_simp

text \<open>
  With the 1 placed in the first cell, the search from the second cell places 2 and then
  9 there, fails both times and returns false with the second cell empty again.
\<close>

lemma backtrack_inner:
  "case solveHelper 0 1
          (markCell (set2 backtrackBoard 0 0 ''1'') 0 0 (initializeTracking backtrackBoard newSolver),
           set2 backtrackBoard 0 0 (toString 1)) of
     Inl e \<Rightarrow> False
   | Inr (found, s', board') \<Rightarrow> \<not> found \<and> board' = set2 backtrackBoard 0 0 ''1''"
  by code_simp

text \<open>
  C3. If \<^verbatim>\<open>solve\<close> returns false, the board after the call is the board before the call,
  cell for cell.
\<close>

theorem solve_false_restores:
  "wf_board board \<Longrightarrow> solve s board = Inr (False, s', board') \<Longrightarrow> board' = board"
  using search_backs_out(1)[of 0 0 "(initializeTracking board s, board)"]
  by (simp add: solve_def)

theorem solve_false_restores_witness:
  "wf_board backtrackBoard \<and>
   backtrackBoard ! 0 ! 0 = ''.'' \<and>
   \<not> rows (initializeTracking backtrackBoard newSolver) ! 0 ! 1 \<and>
   \<not> cols (initializeTracking backtrackBoard newSolver) ! 0 ! 1 \<and>
   \<not> blocks (initializeTracking backtrackBoard newSolver) ! blockIndexOf 0 0 ! 1 \<and>
   (\<exists>s'. solve newSolver backtrackBoard = Inr (False, s', backtrackBoard))"
proof -
  from backtrack_search obtain s' board' where
    run: "solve newSolver backtrackBoard = Inr (False, s', board')"
    by (auto split: sum.splits)
  from solve_false_restores[OF wf_backtrackBoard run] have "board' = backtrackBoard" .
  with run have "\<exists>s'. solve newSolver backtrackBoard = Inr (False, s', backtrackBoard)"
    by blast
  with wf_backtrackBoard backtrack_places show ?thesis
    by (intro conjI) simp_all
qed

section \<open>Determinism of the search\<close>

lemma copyBoardForSolving_same: "copyBoardForSolving board = board"
  by (simp add: copyBoardForSolving_def)

text \<open>
  C9. \<^verbatim>\<open>solve\<close> is deterministic: on copies of one board, two solvers, whatever earlier
  calls left in their tables, return the same boolean and leave the same board; so does
  a second call on the solver that the first call leaves.
\<close>

theorem solve_deterministic:
  "wf_board board \<Longrightarrow> wf_solver s1 \<Longrightarrow> wf_solver s2 \<Longrightarrow>
   \<exists>found s' board'.
     solve s1 (copyBoardForSolving board) = Inr (found, s', board') \<and>
     solve s2 (copyBoardForSolving board) = Inr (found, s', board') \<and>
     solve s' (copyBoardForSolving board) = Inr (found, s', board')"
proof -
  assume wf1: "wf_solver s1" and wf2: "wf_solver s2"
  let ?copy = "copyBoardForSolving board"
  have fresh: "solve s ?copy = solve newSolver ?copy" if "wf_solver s" for s
    by (simp only: solve_def initializeTracking_fresh[OF that])
  from solve_returns obtain found s' board' where
    first: "solve s1 ?copy = Inr (found, s', board')"
    by blast
  from solve_keeps_shape[OF wf1 first] have wf': "wf_solver s'" .
  have "solve s2 ?copy = Inr (found, s', board')"
    using fresh[OF wf1] fresh[OF wf2] first by (simp only:)
  moreover have "solve s' ?copy = Inr (found, s', board')"
    using fresh[OF wf1] fresh[OF wf'] first by (simp only:)
  ultimately show ?thesis
    using first by (intro exI conjI)
qed

theorem solve_deterministic_witness:
  "wf_board classic \<and> wf_solver newSolver \<and> wf_solver fullSolver \<and>
   (\<exists>found s' board'.
     solve newSolver (copyBoardForSolving classic) = Inr (found, s', board') \<and>
     solve fullSolver (copyBoardForSolving classic) = Inr (found, s', board') \<and>
     solve s' (copyBoardForSolving classic) = Inr (found, s', board'))"
proof -
  have wf: "wf_board classic" by code_simp
  from solve_deterministic[OF wf wf_newSolver wf_fullSolver] wf wf_newSolver wf_fullSolver
  show ?thesis by (intro conjI)
qed

section \<open>Conflict detection on two small boards\<close>

text \<open>
  C4. The claim is that every cell of a block holding a value that occurs twice in the
  block is in the conflict list, the first occurrence included. On \<open>blockPairBoard\<close> the
  two 5s of the first block share no row and no column, and the list holds the second
  one only: the block pass pushes a cell when its value was seen before and never goes
  back to the cell that was seen.
\<close>

theorem block_first_occurrence_missing:
  "blockPairBoard ! 0 ! 0 = ''5'' \<and> blockPairBoard ! 1 ! 1 = ''5'' \<and>
   conflicts (checkIllegalMove blockPairBoard) = [(1, 1)]"
  by code_simp

text \<open>
  C6. The claim is that no position occurs twice in the conflict list. On
  \<open>rowPairBoard\<close> the row pass pushes both 5s and the block pass pushes the second one
  again: it appends its cells without looking whether the list has them.
\<close>

theorem conflict_listed_twice:
  "conflicts (checkIllegalMove rowPairBoard) = [(0, 0), (0, 1), (0, 1)]"
  by code_simp

section \<open>Completion\<close>

lemma forEach_guard:
  "forEach xs (\<lambda>x s. if P x then None else Some s) s = (if \<exists>x \<in> set xs. P x then None else Some s)"
  by (induction xs) auto

lemma forEach_nested_guard:
  "forEach xs (\<lambda>x. forEach ys (\<lambda>y s. if P x y then None else Some s)) s =
     (if \<exists>x \<in> set xs. \<exists>y \<in> set ys. P x y then None else Some s)"
  by (induction xs) (auto simp: forEach_guard)

text \<open>
  C5. \<^verbatim>\<open>checkCompletion\<close> is true exactly when no cell is empty (\<^verbatim>\<open>"."\<close> or the empty
  string, as the function reads it) and \<^verbatim>\<open>checkIllegalMove\<close> reports no conflicts; a full
  board with a conflict gives false.
\<close>

theorem checkCompletion_iff:
  "wf_board board \<Longrightarrow>
   checkCompletion board \<longleftrightarrow>
     (\<forall>row < 9. \<forall>col < 9. board ! row ! col \<noteq> ''.'' \<and> board ! row ! col \<noteq> '''') \<and>
     conflicts (checkIllegalMove board) = []"
  by (auto simp: checkCompletion_def forEach_nested_guard)

theorem checkCompletion_iff_witness:
  "wf_board filledTwoFivesBoard \<and> conflicts (checkIllegalMove filledTwoFivesBoard) \<noteq> [] \<and>
   \<not> checkCompletion filledTwoFivesBoard"
proof -
  have wf: "wf_board filledTwoFivesBoard" by code_simp
  have c: "conflicts (checkIllegalMove filledTwoFivesBoard) \<noteq> []" by code_simp
  from checkCompletion_iff[OF wf] c wf show ?thesis by simp
qed

section \<open>Hints\<close>

lemma fold_push:
  "fold (\<lambda>j hs. if P j then hs @ [g j] else hs) js hs = hs @ map g (filter P js)"
  by (induction js arbitrary: hs) simp_all

lemma fold_append_each:
  "fold (\<lambda>i hs. hs @ F i) xs hs = hs @ concat (map F xs)"
  by (induction xs arbitrary: hs) simp_all

lemma fold_push_fun:
  "fold (\<lambda>j hs. if P j then hs @ [g j] else hs) js = (\<lambda>hs. hs @ map g (filter P js))"
  by (rule ext) (rule fold_push)

lemma availableHints_eq:
  "availableHints currentBoard originalCells =
     concat (map (\<lambda>i. map (Pair i) (filter (\<lambda>j. currentBoard ! i ! j = ''.'' \<and> \<not> originalCells ! i ! j) [0..<9])) [0..<9])"
  unfolding availableHints_def
  by (simp only: fold_push_fun[where g="Pair i" for i] fold_append_each append_Nil)

lemma availableHints_set:
  "(i, j) \<in> set (availableHints currentBoard originalCells) \<longleftrightarrow>
     i < 9 \<and> j < 9 \<and> currentBoard ! i ! j = ''.'' \<and> \<not> originalCells ! i ! j"
  by (auto simp: availableHints_eq)

lemma random_index:
  "0 \<le> random \<Longrightarrow> random < 1 \<Longrightarrow> 0 < n \<Longrightarrow> nat \<lfloor>random * real n\<rfloor> < n"
proof -
  assume r: "0 \<le> random" "random < 1" and n: "0 < n"
  then have "random * real n < real n" by simp
  then have "\<lfloor>random * real n\<rfloor> < int n" by (simp add: floor_less_iff)
  moreover have "0 \<le> \<lfloor>random * real n\<rfloor>" using r by simp
  ultimately show ?thesis by linarith
qed

text \<open>
  C7. \<^verbatim>\<open>getHint\<close> returns \<^verbatim>\<open>null\<close> exactly when no cell is both empty and not given;
  otherwise it returns such a cell with the solved board's value there, and when there
  is only one such cell it returns that cell.
\<close>

theorem getHint_spec:
  assumes "wf_board currentBoard" and "wf_board solvedBoard" and "wf_mask originalCells"
    and r0: "0 \<le> random" and r1: "random < 1"
  shows "(getHint currentBoard solvedBoard originalCells random = None \<longleftrightarrow>
            \<not> (\<exists>i < 9. \<exists>j < 9. currentBoard ! i ! j = ''.'' \<and> \<not> originalCells ! i ! j)) \<and>
         (\<forall>h. getHint currentBoard solvedBoard originalCells random = Some h \<longrightarrow>
            hintRow h < 9 \<and> hintCol h < 9 \<and>
            currentBoard ! hintRow h ! hintCol h = ''.'' \<and> \<not> originalCells ! hintRow h ! hintCol h \<and>
            hintValue h = solvedBoard ! hintRow h ! hintCol h) \<and>
         (\<forall>i j. i < 9 \<and> j < 9 \<and> currentBoard ! i ! j = ''.'' \<and> \<not> originalCells ! i ! j \<and>
            (\<forall>i' j'. i' < 9 \<and> j' < 9 \<and> currentBoard ! i' ! j' = ''.'' \<and> \<not> originalCells ! i' ! j'
               \<longrightarrow> i' = i \<and> j' = j) \<longrightarrow>
            getHint currentBoard solvedBoard originalCells random =
              Some \<lparr>hintRow = i, hintCol = j, hintValue = solvedBoard ! i ! j\<rparr>)"
proof -
  let ?hs = "availableHints currentBoard originalCells"
  let ?cand = "\<lambda>i j. i < 9 \<and> j < 9 \<and> currentBoard ! i ! j = ''.'' \<and> \<not> originalCells ! i ! j"
  have mem: "(i, j) \<in> set ?hs \<longleftrightarrow> ?cand i j" for i j
    by (rule availableHints_set)
  have none: "getHint currentBoard solvedBoard originalCells random = None \<longleftrightarrow> ?hs = []"
    by (simp add: getHint_def Let_def split: prod.splits)
  have empty_iff: "?hs = [] \<longleftrightarrow> \<not> (\<exists>i j. ?cand i j)"
  proof
    assume "?hs = []"
    then have "(i, j) \<notin> set ?hs" for i j by simp
    then have "\<not> ?cand i j" for i j unfolding mem .
    then show "\<not> (\<exists>i j. ?cand i j)" by simp
  next
    assume no: "\<not> (\<exists>i j. ?cand i j)"
    show "?hs = []"
    proof (cases ?hs)
      case Nil
      then show ?thesis .
    next
      case (Cons p ps)
      obtain i j where p: "p = (i, j)" by (cases p)
      with Cons have "(i, j) \<in> set ?hs" by simp
      then have "?cand i j" unfolding mem .
      then have "\<exists>i j. ?cand i j" by (intro exI)
      with no show ?thesis by (rule notE)
    qed
  qed
  have some: "hintRow h < 9 \<and> hintCol h < 9 \<and>
            currentBoard ! hintRow h ! hintCol h = ''.'' \<and> \<not> originalCells ! hintRow h ! hintCol h \<and>
            hintValue h = solvedBoard ! hintRow h ! hintCol h"
    if h: "getHint currentBoard solvedBoard originalCells random = Some h" for h
  proof -
    from h none have ne: "?hs \<noteq> []" by auto
    let ?k = "nat \<lfloor>random * real (length ?hs)\<rfloor>"
    from ne have "?k < length ?hs"
      by (intro random_index r0 r1) simp
    then have "?hs ! ?k \<in> set ?hs" by simp
    moreover obtain r c where rc: "?hs ! ?k = (r, c)" by (cases "?hs ! ?k")
    ultimately have "?cand r c" using mem by simp
    moreover from h ne rc have "h = \<lparr>hintRow = r, hintCol = c, hintValue = solvedBoard ! r ! c\<rparr>"
      by (simp add: getHint_def Let_def)
    ultimately show ?thesis by simp
  qed
  have only: "getHint currentBoard solvedBoard originalCells random =
              Some \<lparr>hintRow = i, hintCol = j, hintValue = solvedBoard ! i ! j\<rparr>"
    if c: "?cand i j" and u: "\<forall>i' j'. ?cand i' j' \<longrightarrow> i' = i \<and> j' = j" for i j
  proof -
    from c empty_iff none obtain h where
      h: "getHint currentBoard solvedBoard originalCells random = Some h"
      by (cases "getHint currentBoard solvedBoard originalCells random") auto
    from some[OF h] u have "hintRow h = i" "hintCol h = j" by blast+
    with some[OF h] have "h = \<lparr>hintRow = i, hintCol = j, hintValue = solvedBoard ! i ! j\<rparr>"
      by simp
    with h show ?thesis by simp
  qed
  from none empty_iff have first: "getHint currentBoard solvedBoard originalCells random = None \<longleftrightarrow>
            \<not> (\<exists>i < 9. \<exists>j < 9. currentBoard ! i ! j = ''.'' \<and> \<not> originalCells ! i ! j)"
    by auto
  from first some only show ?thesis
    by (intro conjI allI impI) blast+
qed

theorem getHint_spec_witness:
  "wf_board hintBoard \<and> wf_board classicSolved \<and> wf_mask noGivens \<and>
   (0::real) \<le> 1 / 2 \<and> (1 / 2 :: real) < 1 \<and>
   getHint hintBoard classicSolved noGivens (1 / 2) = Some \<lparr>hintRow = 0, hintCol = 0, hintValue = ''5''\<rparr> \<and>
   hintBoard ! 0 ! 0 = ''.'' \<and> \<not> noGivens ! 0 ! 0 \<and> classicSolved ! 0 ! 0 = ''5''"
proof -
  have a: "wf_board hintBoard" by code_simp
  have b: "wf_board classicSolved" by code_simp
  have c: "wf_mask noGivens" by code_simp
  have e: "getHint hintBoard classicSolved noGivens (1 / 2) =
             Some \<lparr>hintRow = 0, hintCol = 0, hintValue = ''5''\<rparr>"
    by code_simp
  have r: "(0::real) \<le> 1 / 2" "(1 / 2 :: real) < 1" by simp_all
  from getHint_spec[OF a b c r] e a b c r show ?thesis by simp
qed

section \<open>Accuracy\<close>

lemma compareCell_count:
  "(case st of (correct, incorrect, empties, n) \<Rightarrow> n = length correct + length incorrect) \<Longrightarrow>
   (case compareCell currentBoard solvedBoard i j st of
      (correct, incorrect, empties, n) \<Rightarrow> n = length correct + length incorrect)"
  by (auto simp: compareCell_def Let_def split: prod.splits)

lemma compareLoop_count:
  "case compareLoop currentBoard solvedBoard of
     (correct, incorrect, empties, n) \<Rightarrow> n = length correct + length incorrect"
proof -
  let ?P = "\<lambda>st :: (nat \<times> nat) list \<times> (nat \<times> nat) list \<times> (nat \<times> nat) list \<times> nat.
              case st of (correct, incorrect, empties, n) \<Rightarrow> n = length correct + length incorrect"
  have row: "?P (fold (\<lambda>j. compareCell currentBoard solvedBoard i j) js st)" if "?P st" for i js st
    using that by (rule fold_preserves) (rule compareCell_count)
  have "?P (fold (\<lambda>i. fold (\<lambda>j. compareCell currentBoard solvedBoard i j) [0..<9]) [0..<9] ([], [], [], 0))"
    by (rule fold_preserves) (simp, rule row)
  then show ?thesis by (simp only: compareLoop_def)
qed

lemma statsCell_count:
  "(case st of (filled, correct, original) \<Rightarrow> correct \<le> filled) \<Longrightarrow>
   (case statsCell currentBoard solvedBoard originalCells i j st of
      (filled, correct, original) \<Rightarrow> correct \<le> filled)"
  by (auto simp: statsCell_def split: prod.splits)

lemma statsLoop_count:
  "case statsLoop currentBoard solvedBoard originalCells of
     (filled, correct, original) \<Rightarrow> correct \<le> filled"
proof -
  let ?P = "\<lambda>st :: nat \<times> nat \<times> nat. case st of (filled, correct, original) \<Rightarrow> correct \<le> filled"
  have row: "?P (fold (\<lambda>j. statsCell currentBoard solvedBoard originalCells i j) js st)" if "?P st" for i js st
    using that by (rule fold_preserves) (rule statsCell_count)
  have "?P (fold (\<lambda>i. fold (\<lambda>j. statsCell currentBoard solvedBoard originalCells i j) [0..<9]) [0..<9] (0, 0, 0))"
    by (rule fold_preserves) (simp, rule row)
  then show ?thesis by (simp only: statsLoop_def)
qed

lemma round_2dp: "real_of_int (Math_round (x * 100)) / 100 = roundHalfUp2dp x"
proof -
  define y where "y = x * 100"
  have t: "x * 1000 = 10 * y" by (simp add: y_def)
  have kept: "\<lfloor>10 * y\<rfloor> div 10 = \<lfloor>y\<rfloor>"
    using floor_divide_real_eq_div[of 10 "10 * y"] by simp
  have third: "\<lfloor>10 * y\<rfloor> mod 10 = \<lfloor>10 * y\<rfloor> - 10 * \<lfloor>y\<rfloor>"
    using kept by (simp add: minus_mult_div_eq_mod[symmetric])
  have "\<lfloor>y + 1 / 2\<rfloor> = (if 5 \<le> \<lfloor>10 * y\<rfloor> - 10 * \<lfloor>y\<rfloor> then \<lfloor>y\<rfloor> + 1 else \<lfloor>y\<rfloor>)"
  proof (cases "5 \<le> \<lfloor>10 * y\<rfloor> - 10 * \<lfloor>y\<rfloor>")
    case True
    then have "10 * \<lfloor>y\<rfloor> + 5 \<le> \<lfloor>10 * y\<rfloor>" by simp
    then have "real_of_int (10 * \<lfloor>y\<rfloor> + 5) \<le> 10 * y" by (simp only: le_floor_iff)
    then have "real_of_int \<lfloor>y\<rfloor> + 1 \<le> y + 1 / 2" by simp
    moreover have "y + 1 / 2 < real_of_int \<lfloor>y\<rfloor> + 1 + 1" by linarith
    ultimately have "\<lfloor>y + 1 / 2\<rfloor> = \<lfloor>y\<rfloor> + 1"
      by (intro floor_unique) simp_all
    with True show ?thesis by simp
  next
    case False
    then have "\<lfloor>10 * y\<rfloor> < 10 * \<lfloor>y\<rfloor> + 5" by simp
    then have "10 * y < real_of_int (10 * \<lfloor>y\<rfloor> + 5)" by (simp only: floor_less_iff)
    then have "y + 1 / 2 < real_of_int \<lfloor>y\<rfloor> + 1" by simp
    moreover have "real_of_int \<lfloor>y\<rfloor> \<le> y + 1 / 2" by linarith
    ultimately have "\<lfloor>y + 1 / 2\<rfloor> = \<lfloor>y\<rfloor>"
      by (intro floor_unique) simp_all
    with False show ?thesis by simp
  qed
  then show ?thesis
    unfolding Math_round_def roundHalfUp2dp_def Let_def t kept third y_def[symmetric]
    by simp
qed

lemma accuracy_range:
  assumes "c \<le> n" and "0 < n"
  shows "0 \<le> real_of_int (Math_round (real c / real n * 100 * 100)) / 100"
    and "real_of_int (Math_round (real c / real n * 100 * 100)) / 100 \<le> 100"
proof -
  let ?a = "real c / real n * 100 * 100"
  have lo: "0 \<le> ?a" by simp
  have "real c / real n \<le> 1" using assms by simp
  then have hi: "?a \<le> 10000" by simp
  from lo have "0 \<le> \<lfloor>?a + 1 / 2\<rfloor>" by simp
  then show "0 \<le> real_of_int (Math_round ?a) / 100" by (simp add: Math_round_def)
  from hi have "?a + 1 / 2 < 10001" by simp
  then have "\<lfloor>?a + 1 / 2\<rfloor> < 10001" by (simp only: floor_less_iff)
  then have "real_of_int \<lfloor>?a + 1 / 2\<rfloor> \<le> 10000" by simp
  then show "real_of_int (Math_round ?a) / 100 \<le> 100" by (simp add: Math_round_def)
qed

lemma round_zero: "real_of_int (Math_round (0 * 100)) / 100 = 0"
  by (simp add: Math_round_def)

lemma accuracy_facts:
  assumes "c \<le> n"
  defines "x \<equiv> real_of_int (Math_round ((if n > 0 then (real c / real n) * 100 else 0) * 100)) / 100"
  shows "0 \<le> x \<and> x \<le> 100 \<and> (n = 0 \<longrightarrow> x = 0) \<and>
         (n \<noteq> 0 \<longrightarrow> x = roundHalfUp2dp (real c / real n * 100))"
proof (cases "n = 0")
  case True
  then show ?thesis by (simp add: x_def Math_round_def)
next
  case False
  then have pos: "0 < n" by simp
  then have x: "x = real_of_int (Math_round (real c / real n * 100 * 100)) / 100"
    by (simp add: x_def)
  from accuracy_range[OF assms(1) pos] have "0 \<le> x" "x \<le> 100"
    unfolding x by simp_all
  moreover have "x = roundHalfUp2dp (real c / real n * 100)"
    unfolding x by (rule round_2dp)
  ultimately show ?thesis using False by simp
qed

text \<open>
  C8. The accuracy of \<^verbatim>\<open>compareBoards\<close> and of \<^verbatim>\<open>getValidationStats\<close> lies between 0 and
  100, is 0 when no filled cell is counted, and is otherwise the share of correct cells
  among the filled ones, times 100, rounded to two decimals with a half going up.
\<close>

theorem accuracy_spec:
  assumes "wf_board currentBoard" and "wf_board solvedBoard" and "wf_mask originalCells"
  shows "(let r = compareBoards currentBoard solvedBoard;
              correctN = length (correctCells r);
              filledN = length (correctCells r) + length (incorrectCells r)
          in 0 \<le> accuracy r \<and> accuracy r \<le> 100 \<and>
             (filledN = 0 \<longrightarrow> accuracy r = 0) \<and>
             (filledN \<noteq> 0 \<longrightarrow> accuracy r = roundHalfUp2dp (real correctN / real filledN * 100))) \<and>
         (let st = getValidationStats currentBoard solvedBoard originalCells
          in 0 \<le> statsAccuracy st \<and> statsAccuracy st \<le> 100 \<and>
             (filledCells st = 0 \<longrightarrow> statsAccuracy st = 0) \<and>
             (filledCells st \<noteq> 0 \<longrightarrow>
                statsAccuracy st = roundHalfUp2dp (real (correctCount st) / real (filledCells st) * 100)))"
proof (intro conjI)
  obtain correct incorrect empties n where
    loop: "compareLoop currentBoard solvedBoard = (correct, incorrect, empties, n)"
    by (cases "compareLoop currentBoard solvedBoard") auto
  with compareLoop_count[of currentBoard solvedBoard] have n: "length correct + length incorrect = n"
    by simp
  then have le: "length correct \<le> n" by simp
  have r: "correctCells (compareBoards currentBoard solvedBoard) = correct"
    "incorrectCells (compareBoards currentBoard solvedBoard) = incorrect"
    "accuracy (compareBoards currentBoard solvedBoard) =
       real_of_int (Math_round ((if n > 0 then (real (length correct) / real n) * 100 else 0) * 100)) / 100"
    using loop by (simp_all add: compareBoards_def Let_def)
  show "let r = compareBoards currentBoard solvedBoard;
            correctN = length (correctCells r);
            filledN = length (correctCells r) + length (incorrectCells r)
        in 0 \<le> accuracy r \<and> accuracy r \<le> 100 \<and>
           (filledN = 0 \<longrightarrow> accuracy r = 0) \<and>
           (filledN \<noteq> 0 \<longrightarrow> accuracy r = roundHalfUp2dp (real correctN / real filledN * 100))"
    unfolding Let_def r n by (rule accuracy_facts[OF le])
next
  obtain filled correct original where
    loop: "statsLoop currentBoard solvedBoard originalCells = (filled, correct, original)"
    by (cases "statsLoop currentBoard solvedBoard originalCells") auto
  with statsLoop_count[of currentBoard solvedBoard originalCells] have le: "correct \<le> filled"
    by simp
  have r: "filledCells (getValidationStats currentBoard solvedBoard originalCells) = filled"
    "correctCount (getValidationStats currentBoard solvedBoard originalCells) = correct"
    "statsAccuracy (getValidationStats currentBoard solvedBoard originalCells) =
       real_of_int (Math_round ((if filled > 0 then (real correct / real filled) * 100 else 0) * 100)) / 100"
    using loop by (simp_all add: getValidationStats_def Let_def)
  show "let st = getValidationStats currentBoard solvedBoard originalCells
        in 0 \<le> statsAccuracy st \<and> statsAccuracy st \<le> 100 \<and>
           (filledCells st = 0 \<longrightarrow> statsAccuracy st = 0) \<and>
           (filledCells st \<noteq> 0 \<longrightarrow>
              statsAccuracy st = roundHalfUp2dp (real (correctCount st) / real (filledCells st) * 100))"
    unfolding Let_def r by (rule accuracy_facts[OF le])
qed

theorem accuracy_spec_witness:
  "wf_board threeEntriesBoard \<and> wf_board classicSolved \<and> wf_mask noGivens \<and>
   accuracy (compareBoards threeEntriesBoard classicSolved) = 3333 / 100 \<and>
   statsAccuracy (getValidationStats threeEntriesBoard classicSolved noGivens) = 3333 / 100 \<and>
   accuracy (compareBoards blankBoard classicSolved) = 0"
proof -
  have a: "wf_board threeEntriesBoard" by code_simp
  have b: "wf_board classicSolved" by code_simp
  have c: "wf_mask noGivens" by code_simp
  have d: "accuracy (compareBoards threeEntriesBoard classicSolved) = 3333 / 100" by code_simp
  have e: "statsAccuracy (getValidationStats threeEntriesBoard classicSolved noGivens) = 3333 / 100"
    by code_simp
  have f: "accuracy (compareBoards blankBoard classicSolved) = 0" by code_simp
  from accuracy_spec[OF a b c] a b c d e f show ?thesis by simp
qed

section \<open>The two validity checks agree\<close>

lemma forEach_append:
  "forEach (xs @ ys) body s = (case forEach xs body s of None \<Rightarrow> None | Some s' \<Rightarrow> forEach ys body s')"
  by (induction xs arbitrary: s) (auto split: option.splits)

lemma forEach_map: "forEach (map g xs) body s = forEach xs (\<lambda>x. body (g x)) s"
  by (induction xs arbitrary: s) (auto split: option.splits)

lemma forEach_nested:
  "forEach xs (\<lambda>i. forEach ys (\<lambda>j. body i j)) s = forEach (List.product xs ys) (\<lambda>p. body (fst p) (snd p)) s"
  by (induction xs arbitrary: s) (auto simp: forEach_append forEach_map split: option.splits)

lemma blockIndexOf_less: "i < 9 \<Longrightarrow> j < 9 \<Longrightarrow> blockIndexOf i j < 9"
  unfolding blockIndexOf_def by presburger

lemma validStep_skip:
  "cellAt board p = ''.'' \<Longrightarrow> validStep board (fst p) (snd p) st = Some st"
  by (simp add: validStep_def cellAt_def)

lemma validStep_seen:
  "cellAt board p \<noteq> ''.'' \<Longrightarrow> seenIn st p (cellAt board p) \<Longrightarrow>
   validStep board (fst p) (snd p) st = None"
  by (simp add: validStep_def cellAt_def seenIn_def Let_def)

lemma validStep_new:
  assumes "cellAt board p \<noteq> ''.''" and "\<not> seenIn st p (cellAt board p)"
    and "wf_seen st" and "fst p < 9" and "snd p < 9"
  shows "\<exists>st'. validStep board (fst p) (snd p) st = Some st' \<and> wf_seen st' \<and>
           (\<forall>q v. fst q < 9 \<and> snd q < 9 \<longrightarrow>
              (seenIn st' q v \<longleftrightarrow> seenIn st q v \<or> (v = cellAt board p \<and> sameUnit p q)))"
proof -
  let ?v = "cellAt board p"
  let ?b = "blockIndexOf (fst p) (snd p)"
  let ?st' = "st\<lparr>rowSets := (rowSets st)[fst p := insert ?v (rowSets st ! fst p)],
                 colSets := (colSets st)[snd p := insert ?v (colSets st ! snd p)],
                 blockSets := (blockSets st)[?b := insert ?v (blockSets st ! ?b)]\<rparr>"
  have step: "validStep board (fst p) (snd p) st = Some ?st'"
    using assms(1,2) by (simp add: validStep_def cellAt_def seenIn_def Let_def)
  have wf': "wf_seen ?st'"
    using assms(3) by (simp add: wf_seen_def)
  have b9: "?b < 9" using assms(4,5) by (rule blockIndexOf_less)
  have "seenIn ?st' q v \<longleftrightarrow> seenIn st q v \<or> (v = ?v \<and> sameUnit p q)"
    if q: "fst q < 9 \<and> snd q < 9" for q v
  proof -
    have qb: "blockIndexOf (fst q) (snd q) < 9" using q by (simp add: blockIndexOf_less)
    show ?thesis
      using assms(3,4,5) q qb b9
      by (auto simp: seenIn_def sameUnit_def wf_seen_def nth_list_update)
  qed
  with step wf' show ?thesis by blast
qed

lemma valid_scan:
  assumes "distinct ps" and "\<forall>p \<in> set ps. fst p < 9 \<and> snd p < 9" and "wf_seen st"
  shows "forEach ps (\<lambda>p. validStep board (fst p) (snd p)) st = None \<longleftrightarrow>
           (\<exists>p \<in> set ps. cellAt board p \<noteq> ''.'' \<and> seenIn st p (cellAt board p)) \<or>
           (\<exists>p \<in> set ps. \<exists>q \<in> set ps. p \<noteq> q \<and> sameUnit p q \<and>
              cellAt board p \<noteq> ''.'' \<and> cellAt board p = cellAt board q)"
  using assms
proof (induction ps arbitrary: st)
  case Nil
  then show ?case by simp
next
  case (Cons p ps)
  have range: "fst p < 9" "snd p < 9" and rest: "\<forall>q \<in> set ps. fst q < 9 \<and> snd q < 9"
    and fresh: "p \<notin> set ps" and dist: "distinct ps"
    using Cons.prems by auto
  let ?scan = "\<lambda>ps st. forEach ps (\<lambda>p. validStep board (fst p) (snd p)) st"
  show ?case
  proof (cases "cellAt board p = ''.''")
    case True
    have eq: "?scan (p # ps) st = ?scan ps st"
      using validStep_skip[OF True] by simp
    show ?thesis
      unfolding eq Cons.IH[OF dist rest Cons.prems(3)] using True by auto
  next
    case filled: False
    show ?thesis
    proof (cases "seenIn st p (cellAt board p)")
      case True
      with validStep_seen[OF filled True] filled show ?thesis by simp
    next
      case False
      from validStep_new[OF filled False Cons.prems(3) range] obtain st' where
        step: "validStep board (fst p) (snd p) st = Some st'" and wf': "wf_seen st'"
        and seen': "\<And>q v. fst q < 9 \<and> snd q < 9 \<Longrightarrow>
              (seenIn st' q v \<longleftrightarrow> seenIn st q v \<or> (v = cellAt board p \<and> sameUnit p q))"
        by blast
      have sym: "sameUnit a b \<longleftrightarrow> sameUnit b a" for a b
        by (auto simp: sameUnit_def)
      let ?S = "\<exists>q \<in> set ps. cellAt board q \<noteq> ''.'' \<and> seenIn st q (cellAt board q)"
      let ?T = "\<exists>q \<in> set ps. cellAt board q = cellAt board p \<and> sameUnit p q"
      let ?C = "\<exists>a \<in> set ps. \<exists>b \<in> set ps. a \<noteq> b \<and> sameUnit a b \<and>
                  cellAt board a \<noteq> ''.'' \<and> cellAt board a = cellAt board b"
      have eq: "?scan (p # ps) st = ?scan ps st'"
        using step by simp
      have pointwise: "(cellAt board q \<noteq> ''.'' \<and> seenIn st' q (cellAt board q)) \<longleftrightarrow>
          (cellAt board q \<noteq> ''.'' \<and> seenIn st q (cellAt board q)) \<or>
          (cellAt board q = cellAt board p \<and> sameUnit p q)" if "q \<in> set ps" for q
        using seen'[of q "cellAt board q"] rest that filled by auto
      have "(\<exists>q \<in> set ps. cellAt board q \<noteq> ''.'' \<and> seenIn st' q (cellAt board q)) \<longleftrightarrow>
            (\<exists>q \<in> set ps. (cellAt board q \<noteq> ''.'' \<and> seenIn st q (cellAt board q)) \<or>
               (cellAt board q = cellAt board p \<and> sameUnit p q))"
        by (rule bex_cong[OF refl]) (rule pointwise)
      also have "\<dots> \<longleftrightarrow> ?S \<or> ?T"
        by (rule bex_disj_distrib)
      finally have F1: "?scan (p # ps) st = None \<longleftrightarrow> ?S \<or> ?T \<or> ?C"
        unfolding eq Cons.IH[OF dist rest wf'] by simp
      have F2: "(\<exists>a \<in> set (p # ps). \<exists>b \<in> set (p # ps). a \<noteq> b \<and> sameUnit a b \<and>
              cellAt board a \<noteq> ''.'' \<and> cellAt board a = cellAt board b) \<longleftrightarrow> ?T \<or> ?C"
        (is "?L \<longleftrightarrow> _")
      proof
        assume ?L
        then obtain a b where ab: "a \<in> set (p # ps)" "b \<in> set (p # ps)" "a \<noteq> b" "sameUnit a b"
          "cellAt board a \<noteq> ''.''" "cellAt board a = cellAt board b"
          by blast
        show "?T \<or> ?C"
        proof (cases "a = p")
          case True
          with ab have "b \<in> set ps" "cellAt board b = cellAt board p" "sameUnit p b" by auto
          then show ?thesis by blast
        next
          case False
          with ab have a: "a \<in> set ps" by simp
          show ?thesis
          proof (cases "b = p")
            case True
            with ab sym[of a p] have "cellAt board a = cellAt board p" "sameUnit p a" by auto
            with a show ?thesis by blast
          next
            case False
            with ab have "b \<in> set ps" by simp
            with a ab show ?thesis by blast
          qed
        qed
      next
        assume "?T \<or> ?C"
        then show ?L
        proof
          assume ?T
          then obtain q where q: "q \<in> set ps" "cellAt board q = cellAt board p" "sameUnit p q"
            by blast
          with fresh have "p \<noteq> q" by auto
          with q filled show ?L
            by (intro bexI[of _ p] bexI[of _ q]) simp_all
        next
          assume ?C
          then obtain a b where "a \<in> set ps" "b \<in> set ps" "a \<noteq> b" "sameUnit a b"
            "cellAt board a \<noteq> ''.''" "cellAt board a = cellAt board b"
            by blast
          then show ?L
            by (intro bexI[of _ a] bexI[of _ b]) simp_all
        qed
      qed
      have F3: "(\<exists>q \<in> set (p # ps). cellAt board q \<noteq> ''.'' \<and> seenIn st q (cellAt board q)) \<longleftrightarrow> ?S"
        using False by simp
      show ?thesis
        unfolding F1 F2 F3 by (rule refl)
    qed
  qed
qed

lemma noneSeen_wf: "wf_seen noneSeen"
  by (simp add: wf_seen_def noneSeen_def)

lemma noneSeen_empty: "fst p < 9 \<Longrightarrow> snd p < 9 \<Longrightarrow> \<not> seenIn noneSeen p v"
  by (simp add: seenIn_def noneSeen_def blockIndexOf_less)

lemma positions_set: "p \<in> set (List.product [0..<9] [0..<9]) \<longleftrightarrow> fst p < 9 \<and> snd p < 9"
  by (cases p) simp

lemma positions_distinct: "distinct (List.product [0..<n] [0..<m])"
  by (simp add: distinct_product)

lemma isValidSudoku_iff: "isValidSudoku board \<longleftrightarrow> \<not> clash (\<lambda>v. v \<noteq> ''.'') board"
proof -
  let ?ps = "List.product [0..<9] [0..<9]"
  have range: "\<forall>p \<in> set ?ps. fst p < 9 \<and> snd p < 9"
    using positions_set by blast
  have "isValidSudoku board \<longleftrightarrow> forEach ?ps (\<lambda>p. validStep board (fst p) (snd p)) noneSeen \<noteq> None"
    by (simp add: isValidSudoku_def forEach_nested split: option.splits)
  also have "\<dots> \<longleftrightarrow> \<not> (\<exists>p \<in> set ?ps. \<exists>q \<in> set ?ps. p \<noteq> q \<and> sameUnit p q \<and>
              cellAt board p \<noteq> ''.'' \<and> cellAt board p = cellAt board q)"
    unfolding valid_scan[OF positions_distinct range noneSeen_wf]
    using noneSeen_empty range by blast
  also have "\<dots> \<longleftrightarrow> \<not> clash (\<lambda>v. v \<noteq> ''.'') board"
    unfolding clash_def Bex_def positions_set by blast
  finally show ?thesis .
qed

lemma firstRepeat_iff:
  "firstRepeat vs seen \<longleftrightarrow> (\<exists>v \<in> set vs. isFilled v \<and> v \<in> seen) \<or> \<not> distinct (filter isFilled vs)"
  by (induction vs arbitrary: seen) auto

lemma distinct_filter_map:
  "distinct ps \<Longrightarrow>
   distinct (filter F (map f ps)) \<longleftrightarrow> (\<forall>p \<in> set ps. \<forall>q \<in> set ps. p \<noteq> q \<and> F (f p) \<longrightarrow> f p \<noteq> f q)"
  by (induction ps) (auto simp: image_iff)

lemma unit_repeat:
  "distinct ps \<Longrightarrow>
   firstRepeat (map f ps) {} \<longleftrightarrow> (\<exists>p \<in> set ps. \<exists>q \<in> set ps. p \<noteq> q \<and> isFilled (f p) \<and> f p = f q)"
  by (simp add: firstRepeat_iff distinct_filter_map)

lemma fold_empty_iff:
  assumes "\<And>x acc. G x acc = [] \<longleftrightarrow> acc = [] \<and> \<not> D x"
  shows "fold G xs acc = [] \<longleftrightarrow> acc = [] \<and> (\<forall>x \<in> set xs. \<not> D x)"
  by (induction xs arbitrary: acc) (auto simp: assms)

lemma scanRow_empty:
  "set cs \<subseteq> {0..<9} \<Longrightarrow>
   scanRow board r cs seen acc = [] \<longleftrightarrow> acc = [] \<and> \<not> firstRepeat (map (\<lambda>c. board ! r ! c) cs) seen"
proof (induction cs arbitrary: seen)
  case Nil
  then show ?case by simp
next
  case (Cons c cs)
  let ?v = "board ! r ! c"
  have c9: "c \<in> set [0..<9]" using Cons.prems by simp
  have push: "fold (\<lambda>c' cs. if board ! r ! c' = ?v then cs @ [(r, c')] else cs) [0..<9] acc \<noteq> []"
  proof -
    have "c \<in> set (filter (\<lambda>c'. board ! r ! c' = ?v) [0..<9])" using c9 by simp
    then have "filter (\<lambda>c'. board ! r ! c' = ?v) [0..<9] \<noteq> []" by (metis empty_iff empty_set)
    then show ?thesis by (simp only: fold_push) simp
  qed
  from Cons.prems have sub: "set cs \<subseteq> {0..<9}" by simp
  show ?case
    using push Cons.IH[OF sub] by (simp add: Let_def isFilled_def)
qed

lemma push_once_empty:
  "fold (\<lambda>r' cs. if P r' then (if \<not> list_ex (Q r') cs then cs @ [g r'] else cs) else cs) xs acc = []
     \<longleftrightarrow> acc = [] \<and> (\<forall>r' \<in> set xs. \<not> P r')"
  by (induction xs arbitrary: acc) auto

lemma scanCol_empty:
  "set rs \<subseteq> {0..<9} \<Longrightarrow>
   scanCol board c rs seen acc = [] \<longleftrightarrow> acc = [] \<and> \<not> firstRepeat (map (\<lambda>r. board ! r ! c) rs) seen"
proof (induction rs arbitrary: seen)
  case Nil
  then show ?case by simp
next
  case (Cons r rs)
  let ?v = "board ! r ! c"
  have r9: "r \<in> set [0..<9]" using Cons.prems by simp
  have push: "fold (\<lambda>r' cs. if board ! r' ! c = ?v
                              then (if \<not> list_ex (\<lambda>(cr, cc). cr = r' \<and> cc = c) cs
                                    then cs @ [(r', c)] else cs)
                              else cs) [0..<9] acc \<noteq> []"
    using r9 unfolding push_once_empty[where g = "\<lambda>r'. (r', c)" and Q = "\<lambda>r'. \<lambda>(cr, cc). cr = r' \<and> cc = c"]
    by blast
  from Cons.prems have sub: "set rs \<subseteq> {0..<9}" by simp
  show ?case
    using push Cons.IH[OF sub] by (simp add: Let_def isFilled_def)
qed

lemma fold_nested:
  "fold (\<lambda>i. fold (\<lambda>j. f i j) ys) xs s = fold (\<lambda>p. f (fst p) (snd p)) (List.product xs ys) s"
  by (induction xs arbitrary: s) (simp_all add: fold_map comp_def)

lemma blockCells_empty:
  "snd (fold (\<lambda>p. blockCell board br bc (fst p) (snd p)) ps (seen, acc)) = [] \<longleftrightarrow>
     acc = [] \<and> \<not> firstRepeat (map (\<lambda>p. board ! (br * 3 + fst p) ! (bc * 3 + snd p)) ps) seen"
  by (induction ps arbitrary: seen acc) (auto simp: blockCell_def Let_def isFilled_def)

lemma scanBlock_empty:
  "scanBlock board br bc cs = [] \<longleftrightarrow>
     cs = [] \<and> \<not> firstRepeat (map (\<lambda>p. board ! (br * 3 + fst p) ! (bc * 3 + snd p))
                              (List.product [0..<3] [0..<3])) {}"
  unfolding scanBlock_def fold_nested by (simp only: append_is_Nil_conv blockCells_empty) simp

lemma conflicts_empty_iff:
  "conflicts (checkIllegalMove board) = [] \<longleftrightarrow>
     (\<forall>r < 9. \<not> rowRepeat board r) \<and> (\<forall>c < 9. \<not> colRepeat board c) \<and>
     (\<forall>br < 3. \<forall>bc < 3. \<not> blockRepeat board (br, bc))"
proof -
  have rowsPass: "fold (\<lambda>row. scanRow board row [0..<9] {}) [0..<9] acc = [] \<longleftrightarrow>
      acc = [] \<and> (\<forall>r \<in> set [0..<9]. \<not> rowRepeat board r)" for acc
    by (rule fold_empty_iff) (simp add: scanRow_empty rowRepeat_def)
  have colsPass: "fold (\<lambda>col. scanCol board col [0..<9] {}) [0..<9] acc = [] \<longleftrightarrow>
      acc = [] \<and> (\<forall>c \<in> set [0..<9]. \<not> colRepeat board c)" for acc
    by (rule fold_empty_iff) (simp add: scanCol_empty colRepeat_def)
  have blocksPass: "fold (\<lambda>blockRow. fold (\<lambda>blockCol. scanBlock board blockRow blockCol) [0..<3]) [0..<3] acc = [] \<longleftrightarrow>
      acc = [] \<and> (\<forall>k \<in> set (List.product [0..<3] [0..<3]). \<not> blockRepeat board k)" for acc
    unfolding fold_nested
    by (rule fold_empty_iff) (simp add: scanBlock_empty blockRepeat_def)
  show ?thesis
    unfolding checkIllegalMove_def Let_def IllegalMoves.simps blocksPass colsPass rowsPass
    by auto
qed

lemma bex_upt: "(\<exists>x \<in> set [0..<n]. P x) \<longleftrightarrow> (\<exists>x < n. P x)"
  by auto

lemma bex_product:
  "(\<exists>p \<in> set (List.product xs ys). P p) \<longleftrightarrow> (\<exists>x \<in> set xs. \<exists>y \<in> set ys. P (x, y))"
  by auto

lemma rowRepeat_iff:
  "rowRepeat board r \<longleftrightarrow>
     (\<exists>c < 9. \<exists>c' < 9. c \<noteq> c' \<and> isFilled (board ! r ! c) \<and> board ! r ! c = board ! r ! c')"
  unfolding rowRepeat_def unit_repeat[OF distinct_upt] bex_upt by (rule refl)

lemma colRepeat_iff:
  "colRepeat board c \<longleftrightarrow>
     (\<exists>r < 9. \<exists>r' < 9. r \<noteq> r' \<and> isFilled (board ! r ! c) \<and> board ! r ! c = board ! r' ! c)"
  unfolding colRepeat_def unit_repeat[OF distinct_upt] bex_upt by (rule refl)

lemma blockRepeat_iff:
  "blockRepeat board (br, bc) \<longleftrightarrow>
     (\<exists>x < 3. \<exists>y < 3. \<exists>x' < 3. \<exists>y' < 3. (x, y) \<noteq> (x', y') \<and>
        isFilled (board ! (br * 3 + x) ! (bc * 3 + y)) \<and>
        board ! (br * 3 + x) ! (bc * 3 + y) = board ! (br * 3 + x') ! (bc * 3 + y'))"
  unfolding blockRepeat_def unit_repeat[OF positions_distinct] bex_product bex_upt fst_conv snd_conv
  by (rule refl)

lemma blockRepeatI:
  "x < 3 \<Longrightarrow> y < 3 \<Longrightarrow> x' < 3 \<Longrightarrow> y' < 3 \<Longrightarrow> (x, y) \<noteq> (x', y') \<Longrightarrow>
   isFilled (board ! (br * 3 + x) ! (bc * 3 + y)) \<Longrightarrow>
   board ! (br * 3 + x) ! (bc * 3 + y) = board ! (br * 3 + x') ! (bc * 3 + y') \<Longrightarrow>
   blockRepeat board (br, bc)"
  unfolding blockRepeat_iff by blast

lemma block_coords:
  assumes "i < 9" "j < 9" "i' < 9" "j' < 9"
  shows "blockIndexOf i j = blockIndexOf i' j' \<longleftrightarrow> i div 3 = i' div 3 \<and> j div 3 = j' div 3"
proof -
  have key: "a * 3 + b = a' * 3 + b' \<longleftrightarrow> a = a' \<and> b = b'" if "b < 3" "b' < 3"
    for a b a' b' :: nat
    using that by arith
  have "j div 3 < 3" "j' div 3 < 3" using assms by simp_all
  then show ?thesis unfolding blockIndexOf_def by (rule key)
qed

lemma clash_iff:
  "clash isFilled board \<longleftrightarrow>
     (\<exists>r < 9. rowRepeat board r) \<or> (\<exists>c < 9. colRepeat board c) \<or>
     (\<exists>br < 3. \<exists>bc < 3. blockRepeat board (br, bc))"
  (is "?L \<longleftrightarrow> ?R")
proof
  assume ?L
  then obtain i j i' j' where range: "i < 9" "j < 9" "i' < 9" "j' < 9"
    and ne: "(i, j) \<noteq> (i', j')" and unit: "sameUnit (i, j) (i', j')"
    and filled: "isFilled (board ! i ! j)" and eq: "board ! i ! j = board ! i' ! j'"
    unfolding clash_def cellAt_def by auto
  from unit consider "i = i'" | "j = j'" | "blockIndexOf i j = blockIndexOf i' j'"
    unfolding sameUnit_def by auto
  then show ?R
  proof cases
    case 1
    with ne have "j \<noteq> j'" by simp
    with range filled eq 1 have "rowRepeat board i"
      unfolding rowRepeat_iff by blast
    with range show ?thesis by blast
  next
    case 2
    with ne have "i \<noteq> i'" by simp
    with range filled eq 2 have "colRepeat board j"
      unfolding colRepeat_iff by blast
    with range show ?thesis by blast
  next
    case 3
    with range have d: "i div 3 = i' div 3" "j div 3 = j' div 3"
      by (simp_all add: block_coords)
    let ?br = "i div 3" and ?bc = "j div 3"
    have i: "?br * 3 + i mod 3 = i" and j: "?bc * 3 + j mod 3 = j"
      and i': "?br * 3 + i' mod 3 = i'" and j': "?bc * 3 + j' mod 3 = j'"
      using d by presburger+
    have off: "(i mod 3, j mod 3) \<noteq> (i' mod 3, j' mod 3)"
      using ne i j i' j' by (metis prod.inject)
    have "blockRepeat board (?br, ?bc)"
      using off filled eq
      by (intro blockRepeatI[of "i mod 3" "j mod 3" "i' mod 3" "j' mod 3"]) (simp_all add: i j i' j')
    moreover have "?br < 3" "?bc < 3" using range by presburger+
    ultimately show ?thesis by blast
  qed
next
  assume ?R
  then consider r where "r < 9" "rowRepeat board r" | c where "c < 9" "colRepeat board c"
    | br bc where "br < 3" "bc < 3" "blockRepeat board (br, bc)"
    by blast
  then show ?L
  proof cases
    case 1
    then obtain c c' where "c < 9" "c' < 9" "c \<noteq> c'" "isFilled (board ! r ! c)"
      "board ! r ! c = board ! r ! c'"
      unfolding rowRepeat_iff by blast
    with 1 show ?thesis
      unfolding clash_def cellAt_def
      by (intro exI[of _ "(r, c)"] exI[of _ "(r, c')"]) (simp add: sameUnit_def)
  next
    case 2
    then obtain r r' where "r < 9" "r' < 9" "r \<noteq> r'" "isFilled (board ! r ! c)"
      "board ! r ! c = board ! r' ! c"
      unfolding colRepeat_iff by blast
    with 2 show ?thesis
      unfolding clash_def cellAt_def
      by (intro exI[of _ "(r, c)"] exI[of _ "(r', c)"]) (simp add: sameUnit_def)
  next
    case 3
    then obtain x y x' y' where o: "x < 3" "y < 3" "x' < 3" "y' < 3" "(x, y) \<noteq> (x', y')"
      and f: "isFilled (board ! (br * 3 + x) ! (bc * 3 + y))"
      and e: "board ! (br * 3 + x) ! (bc * 3 + y) = board ! (br * 3 + x') ! (bc * 3 + y')"
      unfolding blockRepeat_iff by blast
    have range: "br * 3 + x < 9" "bc * 3 + y < 9" "br * 3 + x' < 9" "bc * 3 + y' < 9"
      using 3 o by simp_all
    have "blockIndexOf (br * 3 + x) (bc * 3 + y) = blockIndexOf (br * 3 + x') (bc * 3 + y')"
      using o unfolding block_coords[OF range] by simp
    moreover have "(br * 3 + x, bc * 3 + y) \<noteq> (br * 3 + x', bc * 3 + y')"
      using o by simp
    ultimately show ?thesis
      unfolding clash_def cellAt_def using range f e
      by (intro exI[of _ "(br * 3 + x, bc * 3 + y)"] exI[of _ "(br * 3 + x', bc * 3 + y')"])
         (simp add: sameUnit_def)
  qed
qed

lemma conflicts_empty_clash:
  "conflicts (checkIllegalMove board) = [] \<longleftrightarrow> \<not> clash isFilled board"
  unfolding conflicts_empty_iff clash_iff by blast

lemma empty_string_not_value: "'''' \<notin> set cellValues"
  by code_simp

text \<open>
  C10. On a board whose cells are \<^verbatim>\<open>"."\<close> or a digit \<^verbatim>\<open>"1"\<close> .. \<^verbatim>\<open>"9"\<close>, the two
  validity checks agree: \<^verbatim>\<open>isValidSudoku\<close> returns true exactly when
  \<^verbatim>\<open>checkIllegalMove\<close> returns an empty conflict list.
\<close>

theorem validity_checks_agree:
  assumes "wf_board board" and "validCells board"
  shows "isValidSudoku board \<longleftrightarrow> conflicts (checkIllegalMove board) = []"
proof -
  have cell: "cellAt board p \<noteq> ''''" if "fst p < 9" "snd p < 9" for p
  proof -
    from assms that have "board ! fst p ! snd p \<in> set cellValues"
      by (simp add: wf_board_def validCells_def list_all_length)
    with empty_string_not_value show ?thesis
      unfolding cellAt_def by metis
  qed
  have "clash (\<lambda>v. v \<noteq> ''.'') board \<longleftrightarrow> clash isFilled board"
    unfolding clash_def isFilled_def using cell by blast
  then show ?thesis
    unfolding isValidSudoku_iff conflicts_empty_clash by simp
qed

theorem validity_checks_agree_witness:
  "wf_board classic \<and> validCells classic \<and> isValidSudoku classic \<and>
   conflicts (checkIllegalMove classic) = [] \<and>
   wf_board rowPairBoard \<and> validCells rowPairBoard \<and> \<not> isValidSudoku rowPairBoard \<and>
   conflicts (checkIllegalMove rowPairBoard) \<noteq> [] \<and>
   wf_board colPairBoard \<and> validCells colPairBoard \<and> \<not> isValidSudoku colPairBoard \<and>
   conflicts (checkIllegalMove colPairBoard) \<noteq> [] \<and>
   wf_board blockPairBoard \<and> validCells blockPairBoard \<and> \<not> isValidSudoku blockPairBoard \<and>
   conflicts (checkIllegalMove blockPairBoard) \<noteq> []"
proof -
  have a: "wf_board classic" "validCells classic" by code_simp+
  have b: "wf_board rowPairBoard" "validCells rowPairBoard" by code_simp+
  have c: "wf_board colPairBoard" "validCells colPairBoard" by code_simp+
  have d: "wf_board blockPairBoard" "validCells blockPairBoard" by code_simp+
  have v: "isValidSudoku classic" by code_simp
  have r: "conflicts (checkIllegalMove rowPairBoard) \<noteq> []" by code_simp
  have k: "\<not> isValidSudoku colPairBoard" by code_simp
  have l: "conflicts (checkIllegalMove blockPairBoard) \<noteq> []" by code_simp
  from validity_checks_agree[OF a] validity_checks_agree[OF b]
    validity_checks_agree[OF c] validity_checks_agree[OF d] a b c d v r k l
  show ?thesis by simp
qed

end
